theory Spec2Isabelle
  imports Main "HOL-Library.Word"
begin

unbundle bit_operations_syntax

section \<open>Go values: panics, returned errors, slices and counted loops\<close>

text \<open>
  The Go functions of \<^verbatim>\<open>internal/gol.go\<close> and \<^verbatim>\<open>main.go\<close> mutate a
  \<^verbatim>\<open>*GameOfLife\<close> in place. The model passes the structure explicitly and returns the
  updated one. A call that does not return a value is the left summand of a result: a
  run-time panic (a slice index out of range, a negative length given to \<^verbatim>\<open>make\<close>,
  the panic of \<^verbatim>\<open>image.NewPaletted\<close> on a rectangle that is too large), or a loop whose
  condition cannot become false. Memory is not bounded: \<^verbatim>\<open>make\<close> with a length that is
  not negative returns the slice. An \<^verbatim>\<open>error\<close> value that a function returns is a value
  of \<open>go_error\<close>. Slices are modelled as lists: the constructor allocates every row of
  both buffers separately, so no two rows share storage.

  Go's \<^verbatim>\<open>int\<close> has 64 bits. The coordinates of the grid engine stay within the grid
  (\<^verbatim>\<open>CellValue\<close> leaves it by one cell) and the number of cells of a grid is the size
  of its storage, so they are modelled as \<open>int\<close>. The rendering multiplies coordinates
  by the scale, which is any \<^verbatim>\<open>int\<close>: there every product, sum, difference and
  increment is wrapped to 64 bits by \<open>int64\<close>.
\<close>

datatype failure =
  IndexOutOfRange | MakeSliceLenOutOfRange | HugeOrNegativeRectangle | NeverReturns

definition max_int :: int where
  "max_int = 2 ^ 63 - 1"

definition int64 :: "int \<Rightarrow> int" where
  "int64 x = (x + 2 ^ 63) mod 2 ^ 64 - 2 ^ 63"

datatype go_error = InvalidSize | OutOfBounds

type_synonym 'a result = "failure + 'a"

definition rbind :: "'a result \<Rightarrow> ('a \<Rightarrow> 'b result) \<Rightarrow> 'b result" where
  "rbind m f = (case m of Inl e \<Rightarrow> Inl e | Inr v \<Rightarrow> f v)"

text \<open>\<^verbatim>\<open>xs[i]\<close> read and written; Go panics when the index is out of range.\<close>

definition index :: "'a list \<Rightarrow> int \<Rightarrow> 'a result" where
  "index xs i = (if 0 \<le> i \<and> i < int (length xs) then Inr (xs ! nat i) else Inl IndexOutOfRange)"

definition store :: "'a list \<Rightarrow> int \<Rightarrow> 'a \<Rightarrow> 'a list result" where
  "store xs i v = (if 0 \<le> i \<and> i < int (length xs) then Inr (xs[nat i := v]) else Inl IndexOutOfRange)"

text \<open>\<^verbatim>\<open>rows[y][x]\<close> read, and \<^verbatim>\<open>rows[y][x] = v\<close>.\<close>

definition load2 :: "'a list list \<Rightarrow> int \<Rightarrow> int \<Rightarrow> 'a result" where
  "load2 rows y x = rbind (index rows y) (\<lambda>r. index r x)"

definition store2 :: "'a list list \<Rightarrow> int \<Rightarrow> int \<Rightarrow> 'a \<Rightarrow> 'a list list result" where
  "store2 rows y x v =
     rbind (index rows y) (\<lambda>r. rbind (store r x v) (\<lambda>r'. store rows y r'))"

text \<open>
  \<^verbatim>\<open>for i := a; i < n; i++ { body }\<close> over a state, where the body may panic. None of the
  loops modelled with it changes its own bound.
\<close>

function for_loop :: "int \<Rightarrow> int \<Rightarrow> (int \<Rightarrow> 's \<Rightarrow> 's result) \<Rightarrow> 's \<Rightarrow> 's result" where
  "for_loop i n body s =
     (if i < n then (case body i s of Inl e \<Rightarrow> Inl e | Inr s' \<Rightarrow> for_loop (i + 1) n body s')
      else Inr s)"
  by pat_completeness auto
termination
  by (relation "measure (\<lambda>(i, n, body, s). nat (n - i))") auto

declare for_loop.simps [simp del]

section \<open>The grid engine (internal/gol.go)\<close>

record GameOfLife =
  width :: int
  height :: int
  data :: "bool list list"
  back_buffer :: "bool list list"

text \<open>
  \<^verbatim>\<open>NewGameOfLife\<close>: the size check, the two \<^verbatim>\<open>make([][]bool, height)\<close> (a slice of
  \<open>height\<close> nil rows, or a panic on a negative length), then one \<^verbatim>\<open>make([]bool, width)\<close>
  per row of each buffer.
\<close>

definition make_slice :: "int \<Rightarrow> 'a \<Rightarrow> 'a list result" where
  "make_slice n zero = (if n < 0 then Inl MakeSliceLenOutOfRange else Inr (replicate (nat n) zero))"

definition NewGameOfLife_row ::
  "int \<Rightarrow> int \<Rightarrow> bool list list \<times> bool list list \<Rightarrow> (bool list list \<times> bool list list) result" where
  "NewGameOfLife_row w i bufs =
     rbind (make_slice w False) (\<lambda>r1. rbind (make_slice w False) (\<lambda>r2.
       rbind (store (fst bufs) i r1) (\<lambda>d. rbind (store (snd bufs) i r2) (\<lambda>b. Inr (d, b)))))"

definition NewGameOfLife :: "int \<Rightarrow> int \<Rightarrow> (go_error + GameOfLife) result" where
  "NewGameOfLife w h =
     (if w \<le> 0 \<or> h \<le> 0 then Inr (Inl InvalidSize)
      else rbind (make_slice h []) (\<lambda>d0. rbind (make_slice h []) (\<lambda>b0.
        rbind (for_loop 0 h (NewGameOfLife_row w) (d0, b0)) (\<lambda>bufs.
          Inr (Inr \<lparr>width = w, height = h, data = fst bufs, back_buffer = snd bufs\<rparr>)))))"

text \<open>
  \<^verbatim>\<open>Set\<close> returns the error value (or nil) and leaves the structure as it then is; both are
  in the result.
\<close>

definition Set :: "GameOfLife \<Rightarrow> int \<Rightarrow> int \<Rightarrow> bool \<Rightarrow> (GameOfLife \<times> go_error option) result" where
  "Set g x y val =
     (if x < 0 \<or> x \<ge> width g then Inr (g, Some OutOfBounds)
      else if y < 0 \<or> y \<ge> height g then Inr (g, Some OutOfBounds)
      else rbind (store2 (data g) y x val) (\<lambda>d.
             rbind (store2 (back_buffer g) y x val) (\<lambda>b.
               Inr (g\<lparr>data := d, back_buffer := b\<rparr>, None))))"

definition At :: "GameOfLife \<Rightarrow> int \<Rightarrow> int \<Rightarrow> bool result" where
  "At g x y =
     (if x < 0 \<or> x \<ge> width g then Inr False
      else if y < 0 \<or> y \<ge> height g then Inr False
      else load2 (data g) y x)"

text \<open>\<^verbatim>\<open>Flush\<close>: the staging buffer copied cell by cell into the current one.\<close>

definition Flush_cell :: "int \<Rightarrow> int \<Rightarrow> GameOfLife \<Rightarrow> GameOfLife result" where
  "Flush_cell i j g =
     rbind (load2 (back_buffer g) i j) (\<lambda>v.
       rbind (store2 (data g) i j v) (\<lambda>d. Inr (g\<lparr>data := d\<rparr>)))"

definition Flush :: "GameOfLife \<Rightarrow> GameOfLife result" where
  "Flush g = for_loop 0 (height g) (\<lambda>i. for_loop 0 (width g) (\<lambda>j. Flush_cell i j)) g"

text \<open>\<^verbatim>\<open>CellValue\<close>: the 3 by 3 scan around \<open>(x, y)\<close> that skips the centre.\<close>

definition CellValue_step :: "GameOfLife \<Rightarrow> int \<Rightarrow> int \<Rightarrow> int \<Rightarrow> int \<Rightarrow> int \<Rightarrow> int result" where
  "CellValue_step g x y i j cnt =
     (if j = 1 \<and> i = 1 then Inr cnt
      else rbind (At g (j + x - 1) (i + y - 1)) (\<lambda>a. Inr (if a then cnt + 1 else cnt)))"

definition CellValue :: "GameOfLife \<Rightarrow> int \<Rightarrow> int \<Rightarrow> int result" where
  "CellValue g x y = for_loop 0 3 (\<lambda>i. for_loop 0 3 (\<lambda>j. CellValue_step g x y i j)) 0"

text \<open>\<^verbatim>\<open>Update\<close>: the rule written into the staging buffer, then \<^verbatim>\<open>Flush\<close>.\<close>

definition Update_cell :: "int \<Rightarrow> int \<Rightarrow> GameOfLife \<Rightarrow> GameOfLife result" where
  "Update_cell i j g =
     rbind (CellValue g j i) (\<lambda>cnt. rbind (At g j i) (\<lambda>a.
       if a then
         (if cnt < 2 \<or> cnt > 3
          then rbind (store2 (back_buffer g) i j False) (\<lambda>b. Inr (g\<lparr>back_buffer := b\<rparr>))
          else Inr g)
       else
         (if cnt = 3
          then rbind (store2 (back_buffer g) i j True) (\<lambda>b. Inr (g\<lparr>back_buffer := b\<rparr>))
          else Inr g)))"

definition Update :: "GameOfLife \<Rightarrow> GameOfLife result" where
  "Update g =
     rbind (for_loop 0 (height g) (\<lambda>i. for_loop 0 (width g) (\<lambda>j. Update_cell i j)) g) Flush"

definition GetWidth :: "GameOfLife \<Rightarrow> int" where
  "GetWidth g = width g"

definition GetHeight :: "GameOfLife \<Rightarrow> int" where
  "GetHeight g = height g"

text \<open>
  The raster of the standard library's \<^verbatim>\<open>image.Paletted\<close>, as far as \<^verbatim>\<open>Image\<close> uses
  it: \<^verbatim>\<open>image.Rect\<close> orders its corners, \<^verbatim>\<open>NewPaletted\<close> allocates one zeroed byte
  per pixel and panics when a side of the rectangle is negative or the number of pixels
  does not fit a non-negative \<^verbatim>\<open>int\<close> (\<^verbatim>\<open>mul3NonNeg\<close>), \<^verbatim>\<open>Set\<close> ignores a point outside
  the rectangle and stores the palette index of the colour otherwise. The palette of
  \<^verbatim>\<open>Image\<close> is white, black: \<^verbatim>\<open>color.White\<close> is its entry 0 and \<^verbatim>\<open>color.Black\<close> its
  entry 1.
\<close>

record Rectangle =
  MinX :: int
  MinY :: int
  MaxX :: int
  MaxY :: int

definition image_Rect :: "int \<Rightarrow> int \<Rightarrow> int \<Rightarrow> int \<Rightarrow> Rectangle" where
  "image_Rect x0 y0 x1 y1 =
     \<lparr>MinX = (if x0 > x1 then x1 else x0), MinY = (if y0 > y1 then y1 else y0),
      MaxX = (if x0 > x1 then x0 else x1), MaxY = (if y0 > y1 then y0 else y1)\<rparr>"

definition Dx :: "Rectangle \<Rightarrow> int" where
  "Dx r = int64 (MaxX r - MinX r)"

definition Dy :: "Rectangle \<Rightarrow> int" where
  "Dy r = int64 (MaxY r - MinY r)"

definition Point_In :: "int \<Rightarrow> int \<Rightarrow> Rectangle \<Rightarrow> bool" where
  "Point_In x y r = (MinX r \<le> x \<and> x < MaxX r \<and> MinY r \<le> y \<and> y < MaxY r)"

datatype color = White | Black

definition Palette_Index :: "color \<Rightarrow> 8 word" where
  "Palette_Index c = (case c of White \<Rightarrow> 0 | Black \<Rightarrow> 1)"

record Paletted =
  Pix :: "8 word list"
  Stride :: int
  Rect :: Rectangle

definition NewPaletted :: "Rectangle \<Rightarrow> Paletted result" where
  "NewPaletted r =
     (if Dx r < 0 \<or> Dy r < 0 \<or> 2 ^ 63 \<le> 1 * Dx r * Dy r then Inl HugeOrNegativeRectangle
      else Inr \<lparr>Pix = replicate (nat (1 * Dx r * Dy r)) 0, Stride = 1 * Dx r, Rect = r\<rparr>)"

definition PixOffset :: "Paletted \<Rightarrow> int \<Rightarrow> int \<Rightarrow> int" where
  "PixOffset p x y = int64 ((y - MinY (Rect p)) * Stride p + (x - MinX (Rect p)) * 1)"

definition Paletted_Set :: "Paletted \<Rightarrow> int \<Rightarrow> int \<Rightarrow> color \<Rightarrow> Paletted result" where
  "Paletted_Set p x y c =
     (if \<not> Point_In x y (Rect p) then Inr p
      else rbind (store (Pix p) (PixOffset p x y) (Palette_Index c)) (\<lambda>pix. Inr (p\<lparr>Pix := pix\<rparr>)))"

definition ColorIndexAt :: "Paletted \<Rightarrow> int \<Rightarrow> int \<Rightarrow> 8 word result" where
  "ColorIndexAt p x y =
     (if \<not> Point_In x y (Rect p) then Inr 0 else index (Pix p) (PixOffset p x y))"

text \<open>
  \<^verbatim>\<open>DrawRect\<close>: both bounds of both loops are inclusive (\<^verbatim>\<open>i <= y1\<close>, \<^verbatim>\<open>j <= x1\<close>),
  and the increment of a counter wraps. A bound equal to the largest \<^verbatim>\<open>int\<close> is
  therefore never exceeded and the loop does not end, unless \<^verbatim>\<open>Set\<close> panics on the
  way: the loops are partial functions, \<open>None\<close> when they run forever, and \<^verbatim>\<open>DrawRect\<close>
  turns \<open>None\<close> into the failure \<open>NeverReturns\<close>.
\<close>

partial_function (option) DrawRect_row ::
  "int \<Rightarrow> int \<Rightarrow> int \<Rightarrow> color \<Rightarrow> Paletted \<Rightarrow> Paletted result option" where
  "DrawRect_row j x1 i col img =
     (if j \<le> x1 then
        (case Paletted_Set img j i col of
           Inl e \<Rightarrow> Some (Inl e)
         | Inr img' \<Rightarrow> DrawRect_row (int64 (j + 1)) x1 i col img')
      else Some (Inr img))"

partial_function (option) DrawRect_rows ::
  "int \<Rightarrow> int \<Rightarrow> int \<Rightarrow> int \<Rightarrow> color \<Rightarrow> Paletted \<Rightarrow> Paletted result option" where
  "DrawRect_rows i x0 x1 y1 col img =
     (if i \<le> y1 then
        (case DrawRect_row x0 x1 i col img of
           None \<Rightarrow> None
         | Some (Inl e) \<Rightarrow> Some (Inl e)
         | Some (Inr img') \<Rightarrow> DrawRect_rows (int64 (i + 1)) x0 x1 y1 col img')
      else Some (Inr img))"

declare DrawRect_row.simps [code]

declare DrawRect_rows.simps [code]

definition DrawRect :: "int \<Rightarrow> int \<Rightarrow> int \<Rightarrow> int \<Rightarrow> color \<Rightarrow> Paletted \<Rightarrow> Paletted result" where
  "DrawRect x0 y0 x1 y1 col img =
     (case DrawRect_rows y0 x0 x1 y1 col img of
        None \<Rightarrow> Inl NeverReturns
      | Some r \<Rightarrow> r)"

definition Image_cell :: "GameOfLife \<Rightarrow> int \<Rightarrow> int \<Rightarrow> int \<Rightarrow> Paletted \<Rightarrow> Paletted result" where
  "Image_cell g scale i j img =
     (let px = int64 (j * scale); py = int64 (i * scale)
      in rbind (At g j i) (\<lambda>a.
           DrawRect px py (int64 (px + scale)) (int64 (py + scale))
             (if a then Black else White) img))"

definition Image_gol :: "GameOfLife \<Rightarrow> int \<Rightarrow> Paletted result" where
  "Image_gol g scale =
     rbind (NewPaletted (image_Rect 0 0 (int64 (width g * scale)) (int64 (height g * scale))))
       (\<lambda>img. for_loop 0 (height g) (\<lambda>i. for_loop 0 (width g) (\<lambda>j. Image_cell g scale i j)) img)"

section \<open>The animation generator (main.go)\<close>

text \<open>
  \<^verbatim>\<open>crc64.MakeTable\<close> and \<^verbatim>\<open>crc64.Checksum\<close> of the standard library: the table entry
  of a byte is eight shift-and-xor steps with the reflected polynomial, the checksum runs
  the table over the bytes from the inverted zero and inverts the result.
\<close>

definition ISO :: "64 word" where
  "ISO = 0xD800000000000000"

definition makeTable_step :: "64 word \<Rightarrow> 64 word \<Rightarrow> 64 word" where
  "makeTable_step poly crc =
     (if crc AND 1 = 1 then drop_bit 1 crc XOR poly else drop_bit 1 crc)"

definition MakeTable :: "64 word \<Rightarrow> 64 word list" where
  "MakeTable poly = map (\<lambda>i. (makeTable_step poly ^^ 8) (word_of_nat i)) [0..<256]"

fun crc64_update :: "64 word list \<Rightarrow> 64 word \<Rightarrow> 8 word list \<Rightarrow> 64 word" where
  "crc64_update tab crc [] = crc"
| "crc64_update tab crc (v # p) =
     crc64_update tab (tab ! unat ((ucast crc :: 8 word) XOR v) XOR drop_bit 8 crc) p"

definition Checksum :: "8 word list \<Rightarrow> 64 word list \<Rightarrow> 64 word" where
  "Checksum p tab = NOT (crc64_update tab (NOT 0) p)"

text \<open>
  The state of the loop of \<^verbatim>\<open>GenerateGIF\<close>. The rendering scale (4 in the source) and the
  iteration limit (\<^verbatim>\<open>MaxIterations\<close>) are parameters of the loop; \<^verbatim>\<open>GenerateGIF\<close> fixes
  them. The result is the state at the \<^verbatim>\<open>break\<close>, whose \<open>images\<close> and \<open>delays\<close> go to
  \<^verbatim>\<open>gif.EncodeAll\<close>, and the value of \<^verbatim>\<open>stable\<close> there (\<open>flag\<close> below).
\<close>

record gen_state =
  game :: GameOfLife
  images :: "Paletted list"
  delays :: "int list"
  dataBuffer :: "8 word list"
  hash_sums :: "64 word list"

definition fill_cell ::
  "GameOfLife \<Rightarrow> int \<Rightarrow> int \<Rightarrow> 8 word list \<times> int \<Rightarrow> (8 word list \<times> int) result" where
  "fill_cell g i j st =
     rbind (At g j i) (\<lambda>a.
       rbind (store (fst st) (snd st) (if a then 64 else 0)) (\<lambda>buf. Inr (buf, snd st + 1)))"

definition fill_buffer :: "GameOfLife \<Rightarrow> 8 word list \<Rightarrow> 8 word list result" where
  "fill_buffer g buf =
     rbind (for_loop 0 (GetHeight g) (\<lambda>i. for_loop 0 (GetWidth g) (\<lambda>j. fill_cell g i j)) (buf, 0))
       (\<lambda>st. Inr (fst st))"

fun stable_search :: "64 word list \<Rightarrow> 64 word \<Rightarrow> bool" where
  "stable_search [] hs = False"
| "stable_search (h # rest) hs = (if h = hs then True else stable_search rest hs)"

datatype step = Continue gen_state | Break gen_state bool

definition Generate_body :: "int \<Rightarrow> int \<Rightarrow> 64 word list \<Rightarrow> gen_state \<Rightarrow> step result" where
  "Generate_body scale maxIterations crcTable s =
     rbind (Image_gol (game s) scale) (\<lambda>img.
       rbind (Update (game s)) (\<lambda>g'.
         rbind (fill_buffer g' (dataBuffer s)) (\<lambda>buf.
           let s' = s\<lparr>game := g', images := images s @ [img], delays := delays s @ [1],
                      dataBuffer := buf\<rparr>;
               hs = Checksum buf crcTable;
               flag = stable_search (hash_sums s) hs
           in if flag \<or> int (length (images s')) = maxIterations
              then Inr (Break s' flag)
              else Inr (Continue (s'\<lparr>hash_sums := hash_sums s @ [hs]\<rparr>)))))"

partial_function (option) Generate_loop ::
  "int \<Rightarrow> int \<Rightarrow> 64 word list \<Rightarrow> gen_state \<Rightarrow> ((gen_state \<times> bool) result) option" where
  "Generate_loop scale maxIterations crcTable s =
     (case Generate_body scale maxIterations crcTable s of
        Inl e \<Rightarrow> Some (Inl e)
      | Inr (Break s' flag) \<Rightarrow> Some (Inr (s', flag))
      | Inr (Continue s') \<Rightarrow> Generate_loop scale maxIterations crcTable s')"

definition Generate_init :: "GameOfLife \<Rightarrow> 8 word list \<Rightarrow> gen_state" where
  "Generate_init g buf = \<lparr>game = g, images = [], delays = [], dataBuffer = buf, hash_sums = []\<rparr>"

definition Generate :: "GameOfLife \<Rightarrow> int \<Rightarrow> int \<Rightarrow> ((gen_state \<times> bool) result) option" where
  "Generate g scale maxIterations =
     (case make_slice (GetWidth g * GetHeight g) 0 of
        Inl e \<Rightarrow> Some (Inl e)
      | Inr buf \<Rightarrow> Generate_loop scale maxIterations (MakeTable ISO) (Generate_init g buf))"

definition MaxIterations :: int where
  "MaxIterations = 2048"

definition GenerateGIF :: "GameOfLife \<Rightarrow> ((gen_state \<times> bool) result) option" where
  "GenerateGIF g = Generate g 4 MaxIterations"

section \<open>Notions of the specification\<close>

text \<open>
  A grid as the constructor and \<^verbatim>\<open>Set\<close> leave it: positive dimensions and two buffers of
  \<open>height\<close> rows of \<open>width\<close> cells. \<open>in_sync\<close> adds that the two buffers hold the same
  cells.
\<close>

definition dims_ok :: "int \<Rightarrow> int \<Rightarrow> 'a list list \<Rightarrow> bool" where
  "dims_ok w h rows = (length rows = nat h \<and> (\<forall>r \<in> set rows. length r = nat w))"

definition well_formed :: "GameOfLife \<Rightarrow> bool" where
  "well_formed g =
     (0 < width g \<and> 0 < height g \<and> dims_ok (width g) (height g) (data g)
      \<and> dims_ok (width g) (height g) (back_buffer g))"

definition in_sync :: "GameOfLife \<Rightarrow> bool" where
  "in_sync g = (well_formed g \<and> back_buffer g = data g)"

definition in_bounds :: "GameOfLife \<Rightarrow> int \<Rightarrow> int \<Rightarrow> bool" where
  "in_bounds g x y = (0 \<le> x \<and> x < width g \<and> 0 \<le> y \<and> y < height g)"

definition cell :: "'a list list \<Rightarrow> int \<Rightarrow> int \<Rightarrow> 'a" where
  "cell rows x y = rows ! nat y ! nat x"

text \<open>
  The rule in the words of the specification: a cell is alive when it is on the grid and
  set in the current buffer; its neighbours are the alive cells among the eight positions
  of its Moore neighbourhood; an alive cell survives with 2 or 3 neighbours and a dead
  cell is born with exactly 3.
\<close>

definition alive :: "GameOfLife \<Rightarrow> int \<Rightarrow> int \<Rightarrow> bool" where
  "alive g x y = (in_bounds g x y \<and> cell (data g) x y)"

definition moore :: "(int \<times> int) list" where
  "moore = [(-1, -1), (0, -1), (1, -1), (-1, 0), (1, 0), (-1, 1), (0, 1), (1, 1)]"

definition neighbours :: "GameOfLife \<Rightarrow> int \<Rightarrow> int \<Rightarrow> int" where
  "neighbours g x y = int (length (filter (\<lambda>d. alive g (x + fst d) (y + snd d)) moore))"

definition next_alive :: "GameOfLife \<Rightarrow> int \<Rightarrow> int \<Rightarrow> bool" where
  "next_alive g x y =
     (if alive g x y then neighbours g x y = 2 \<or> neighbours g x y = 3
      else neighbours g x y = 3)"

definition rows_of :: "int \<Rightarrow> int \<Rightarrow> (int \<Rightarrow> int \<Rightarrow> 'a) \<Rightarrow> 'a list list" where
  "rows_of w h f = map (\<lambda>y. map (\<lambda>x. f (int x) (int y)) [0..<nat w]) [0..<nat h]"

definition Advance :: "GameOfLife \<Rightarrow> GameOfLife" where
  "Advance g =
     g\<lparr>data := rows_of (width g) (height g) (next_alive g),
       back_buffer := rows_of (width g) (height g) (next_alive g)\<rparr>"

definition generation :: "GameOfLife \<Rightarrow> nat \<Rightarrow> GameOfLife" where
  "generation g k = (Advance ^^ k) g"

text \<open>
  The fingerprint of a grid: the checksum of its cells in row-major order, an alive cell
  as the byte 64 and a dead one as 0.
\<close>

definition cell_bytes :: "GameOfLife \<Rightarrow> 8 word list" where
  "cell_bytes g =
     map (\<lambda>k. if cell (data g) (int (k mod nat (width g))) (int (k div nat (width g))) then 64 else 0)
       [0..<nat (width g * height g)]"

definition fingerprint :: "GameOfLife \<Rightarrow> 64 word" where
  "fingerprint g = Checksum (cell_bytes g) (MakeTable ISO)"

text \<open>
  The state at the head of the loop after \<open>k\<close> iterations, none of which left the loop
  (\<open>None\<close> when one of them panicked or reached the \<^verbatim>\<open>break\<close>).
\<close>

fun Generate_iter :: "int \<Rightarrow> int \<Rightarrow> 64 word list \<Rightarrow> nat \<Rightarrow> gen_state \<Rightarrow> gen_state option" where
  "Generate_iter scale maxIterations crcTable 0 s = Some s"
| "Generate_iter scale maxIterations crcTable (Suc k) s =
     (case Generate_iter scale maxIterations crcTable k s of
        None \<Rightarrow> None
      | Some s' \<Rightarrow>
          (case Generate_body scale maxIterations crcTable s' of
             Inr (Continue s'') \<Rightarrow> Some s''
           | _ \<Rightarrow> None))"

text \<open>
  The termination reason of the specification, read off the \<^verbatim>\<open>stable\<close> flag at the
  \<^verbatim>\<open>break\<close>: the source tests \<^verbatim>\<open>stable\<close> before the length of \<open>images\<close>.
\<close>

datatype TerminationReason = StableCycleDetected | IterationLimitReached

definition reason_of :: "bool \<Rightarrow> TerminationReason" where
  "reason_of flag = (if flag then StableCycleDetected else IterationLimitReached)"

text \<open>
  What \<^verbatim>\<open>Generate\<close> returned, for the statements below: the number of frames and the
  reason, when it returned without a panic.
\<close>

definition outcome :: "((gen_state \<times> bool) result) option \<Rightarrow> (nat \<times> TerminationReason) option" where
  "outcome r =
     (case r of
        Some (Inr res) \<Rightarrow> Some (length (images (fst res)), reason_of (snd res))
      | _ \<Rightarrow> None)"

section \<open>Loop invariants and example grids\<close>

text \<open>
  The state of \<^verbatim>\<open>Update\<close> while its first pair of loops runs from the grid \<open>g0\<close>: the
  current buffer is still that of \<open>g0\<close>, and the staging buffer holds the next value of
  the cells already visited and the old value of the others. \<open>flushed\<close> is the same for
  the loops of \<^verbatim>\<open>Flush\<close>.
\<close>

definition staged :: "GameOfLife \<Rightarrow> (int \<Rightarrow> int \<Rightarrow> bool) \<Rightarrow> GameOfLife \<Rightarrow> bool" where
  "staged g0 finished g =
     (well_formed g \<and> width g = width g0 \<and> height g = height g0 \<and> data g = data g0
      \<and> (\<forall>x y. in_bounds g0 x y \<longrightarrow>
            cell (back_buffer g) x y = (if finished x y then next_alive g0 x y else cell (data g0) x y)))"

definition flushed :: "GameOfLife \<Rightarrow> (int \<Rightarrow> int \<Rightarrow> bool) \<Rightarrow> GameOfLife \<Rightarrow> bool" where
  "flushed g0 finished g =
     (well_formed g \<and> width g = width g0 \<and> height g = height g0 \<and> back_buffer g = back_buffer g0
      \<and> (\<forall>x y. in_bounds g0 x y \<longrightarrow>
            cell (data g) x y = (if finished x y then cell (back_buffer g0) x y else cell (data g0) x y)))"

text \<open>
  A grid with the given rows in both buffers, as \<^verbatim>\<open>NewGameOfLife\<close> followed by one
  \<^verbatim>\<open>Set\<close> per cell builds it.
\<close>

definition grid_of :: "bool list list \<Rightarrow> GameOfLife" where
  "grid_of rows =
     \<lparr>width = int (length (hd rows)), height = int (length rows), data = rows, back_buffer = rows\<rparr>"

definition block_grid :: GameOfLife where
  "block_grid = grid_of [[True, True], [True, True]]"

text \<open>A grid whose staging buffer differs from its current buffer.\<close>

definition stale_grid :: GameOfLife where
  "stale_grid = \<lparr>width = 1, height = 1, data = [[False]], back_buffer = [[True]]\<rparr>"

text \<open>
  A raster as \<^verbatim>\<open>NewPaletted\<close> allocates it, the byte of a pixel, and the invariants of
  the loops of \<^verbatim>\<open>DrawRect\<close> (the points of \<open>region\<close> hold \<open>v\<close>, the others are
  as in \<open>img0\<close>) and of \<^verbatim>\<open>Image\<close> (the finished pixels hold the colour of their cell).
\<close>

definition img_ok :: "Paletted \<Rightarrow> bool" where
  "img_ok img =
     (Dx (Rect img) = MaxX (Rect img) - MinX (Rect img)
      \<and> Dy (Rect img) = MaxY (Rect img) - MinY (Rect img)
      \<and> 0 \<le> Dx (Rect img) \<and> 0 \<le> Dy (Rect img) \<and> Stride img = Dx (Rect img)
      \<and> int (length (Pix img)) = Dx (Rect img) * Dy (Rect img)
      \<and> Dx (Rect img) * Dy (Rect img) < 2 ^ 63)"

definition pixel :: "Paletted \<Rightarrow> int \<Rightarrow> int \<Rightarrow> 8 word" where
  "pixel img x y = Pix img ! nat (PixOffset img x y)"

definition painted :: "Paletted \<Rightarrow> (int \<Rightarrow> int \<Rightarrow> bool) \<Rightarrow> 8 word \<Rightarrow> Paletted \<Rightarrow> bool" where
  "painted img0 region v img =
     (img_ok img \<and> Rect img = Rect img0
      \<and> (\<forall>X Y. Point_In X Y (Rect img0) \<longrightarrow>
            pixel img X Y = (if region X Y then v else pixel img0 X Y)))"

definition rendered :: "GameOfLife \<Rightarrow> int \<Rightarrow> (int \<Rightarrow> int \<Rightarrow> bool) \<Rightarrow> Paletted \<Rightarrow> bool" where
  "rendered g scale finished img =
     (img_ok img \<and> Rect img = image_Rect 0 0 (width g * scale) (height g * scale)
      \<and> (\<forall>X Y. Point_In X Y (Rect img) \<longrightarrow> finished X Y \<longrightarrow>
            pixel img X Y = Palette_Index (if alive g (X div scale) (Y div scale) then Black else White)))"

text \<open>
  The raster of a grid at a scale fits when it has fewer than \<open>2^63 - 1\<close> pixels: then
  no product of the rendering wraps, \<^verbatim>\<open>NewPaletted\<close> does not panic and no bound of
  \<^verbatim>\<open>DrawRect\<close> is the largest \<^verbatim>\<open>int\<close>.
\<close>

definition fits :: "GameOfLife \<Rightarrow> int \<Rightarrow> bool" where
  "fits g scale = (\<bar>width g * scale\<bar> * \<bar>height g * scale\<bar> < 2 ^ 63 - 1)"

text \<open>A grid of one alive cell.\<close>

definition single_grid :: GameOfLife where
  "single_grid = grid_of [[True]]"

text \<open>A grid of one row: an alive cell, then a dead one.\<close>

definition half_grid :: GameOfLife where
  "half_grid = grid_of [[True, False]]"

text \<open>
  The invariant of the loops that fill \<^verbatim>\<open>dataBuffer\<close>: \<open>n\<close> bytes are written and they
  are the first \<open>n\<close> bytes of the cells in row-major order.
\<close>

definition filled :: "GameOfLife \<Rightarrow> int \<Rightarrow> 8 word list \<times> int \<Rightarrow> bool" where
  "filled g n st =
     (snd st = n \<and> int (length (fst st)) = width g * height g
      \<and> take (nat n) (fst st) = take (nat n) (cell_bytes g))"

text \<open>
  The raster that \<^verbatim>\<open>Image\<close> returns for a grid. \<^verbatim>\<open>Image\<close> returns one for every
  well-formed grid and every scale at which the raster fits (\<open>Image_frame\<close> below); the
  empty raster stands for a call that does not return.
\<close>

definition frame :: "GameOfLife \<Rightarrow> int \<Rightarrow> Paletted" where
  "frame g scale =
     (case Image_gol g scale of
        Inr img \<Rightarrow> img
      | Inl e \<Rightarrow> \<lparr>Pix = [], Stride = 0, Rect = \<lparr>MinX = 0, MinY = 0, MaxX = 0, MaxY = 0\<rparr>\<rparr>)"

text \<open>
  \<open>seen g k\<close> lists the fingerprints of the generations 1 to \<open>k\<close> of \<open>g\<close>, and
  \<open>repeats g k\<close> says that the fingerprint of generation \<open>k\<close> is among those of the
  generations 1 to \<open>k - 1\<close>. \<open>loop_state\<close> is the state at the head of the loop after
  \<open>k\<close> iterations and \<open>break_state\<close> the state at a \<^verbatim>\<open>break\<close> in iteration \<open>k\<close>.
\<close>

definition seen :: "GameOfLife \<Rightarrow> nat \<Rightarrow> 64 word list" where
  "seen g k = map (\<lambda>m. fingerprint (generation g m)) [1..<Suc k]"

definition repeats :: "GameOfLife \<Rightarrow> nat \<Rightarrow> bool" where
  "repeats g k = (fingerprint (generation g k) \<in> set (seen g (k - 1)))"

definition loop_state :: "GameOfLife \<Rightarrow> int \<Rightarrow> 8 word list \<Rightarrow> nat \<Rightarrow> gen_state" where
  "loop_state g scale buf0 k =
     \<lparr>game = generation g k,
      images = map (\<lambda>m. frame (generation g m) scale) [0..<k],
      delays = replicate k 1,
      dataBuffer = (if k = 0 then buf0 else cell_bytes (generation g k)),
      hash_sums = seen g k\<rparr>"

definition break_state :: "GameOfLife \<Rightarrow> int \<Rightarrow> 8 word list \<Rightarrow> nat \<Rightarrow> gen_state" where
  "break_state g scale buf0 k = (loop_state g scale buf0 k)\<lparr>hash_sums := seen g (k - 1)\<rparr>"

text \<open>
  The patterns of the specification: a 2 by 2 block with its top left cell at \<open>(a, b)\<close>;
  a horizontal blinker of three cells centred at \<open>(a, b)\<close>, with a free row above and
  below and a free column on each side, so that it oscillates; and its upright phase.
\<close>

definition is_block :: "GameOfLife \<Rightarrow> int \<Rightarrow> int \<Rightarrow> bool" where
  "is_block g a b =
     (in_sync g \<and> 0 \<le> a \<and> a + 1 < width g \<and> 0 \<le> b \<and> b + 1 < height g
      \<and> data g = rows_of (width g) (height g) (\<lambda>x y. (x = a \<or> x = a + 1) \<and> (y = b \<or> y = b + 1)))"

definition is_blinker :: "GameOfLife \<Rightarrow> int \<Rightarrow> int \<Rightarrow> bool" where
  "is_blinker g a b =
     (in_sync g \<and> 1 \<le> a \<and> a + 1 < width g \<and> 1 \<le> b \<and> b + 1 < height g
      \<and> data g = rows_of (width g) (height g) (\<lambda>x y. y = b \<and> (x = a - 1 \<or> x = a \<or> x = a + 1)))"

definition upright :: "GameOfLife \<Rightarrow> int \<Rightarrow> int \<Rightarrow> GameOfLife" where
  "upright g a b =
     g\<lparr>data := rows_of (width g) (height g) (\<lambda>x y. x = a \<and> (y = b - 1 \<or> y = b \<or> y = b + 1)),
       back_buffer := rows_of (width g) (height g) (\<lambda>x y. x = a \<and> (y = b - 1 \<or> y = b \<or> y = b + 1))\<rparr>"

text \<open>The frames that \<^verbatim>\<open>Generate\<close> returned.\<close>

definition frames :: "((gen_state \<times> bool) result) option \<Rightarrow> Paletted list" where
  "frames r = (case r of Some (Inr res) \<Rightarrow> images (fst res) | _ \<Rightarrow> [])"

text \<open>
  Example grids: the blinker on a 3 by 3 grid, and a grid of one row of 70 cells with
  its next three generations.
\<close>

definition blinker_grid :: GameOfLife where
  "blinker_grid = grid_of [[False, False, False], [True, True, True], [False, False, False]]"

definition collision_grid0 :: GameOfLife where
  "collision_grid0 =
     grid_of [replicate 6 True @ replicate 54 False @ replicate 4 True @ replicate 2 False @ replicate 4 True]"

definition collision_grid1 :: GameOfLife where
  "collision_grid1 =
     grid_of [replicate 1 False @ replicate 4 True @ replicate 56 False @ replicate 2 True @ replicate 4 False @ replicate 2 True @ replicate 1 False]"

definition collision_grid2 :: GameOfLife where
  "collision_grid2 =
     grid_of [replicate 2 False @ replicate 2 True @ replicate 66 False]"

definition collision_grid3 :: GameOfLife where
  "collision_grid3 =
     grid_of [replicate 70 False]"

section \<open>Basic facts\<close>

lemma rbind_Inr [simp]: "rbind (Inr v) f = f v"
  by (simp add: rbind_def)

lemma rbind_Inl [simp]: "rbind (Inl e) f = Inl e"
  by (simp add: rbind_def)

lemma index_in_range: "0 \<le> i \<Longrightarrow> i < int (length xs) \<Longrightarrow> index xs i = Inr (xs ! nat i)"
  by (simp add: index_def)

lemma store_in_range: "0 \<le> i \<Longrightarrow> i < int (length xs) \<Longrightarrow> store xs i v = Inr (xs[nat i := v])"
  by (simp add: store_def)

lemma for_loop_done: "n \<le> i \<Longrightarrow> for_loop i n body s = Inr s"
  by (simp add: for_loop.simps)

lemma for_loop_step:
  "i < n \<Longrightarrow> body i s = Inr s' \<Longrightarrow> for_loop i n body s = for_loop (i + 1) n body s'"
  by (subst for_loop.simps) simp

lemma for_loop_rule:
  assumes "I i s"
    and "\<And>k t. i \<le> k \<Longrightarrow> k < n \<Longrightarrow> I k t \<Longrightarrow> \<exists>t'. body k t = Inr t' \<and> I (k + 1) t'"
  shows "\<exists>t'. for_loop i n body s = Inr t' \<and> I (max i n) t'"
  using assms
proof (induction i n body s rule: for_loop.induct)
  case (1 i n body s)
  show ?case
  proof (cases "i < n")
    case False
    then show ?thesis using "1.prems"(1) by (simp add: for_loop_done max_def)
  next
    case True
    from "1.prems"(2) [OF order_refl True "1.prems"(1)]
    obtain s' where s': "body i s = Inr s'" "I (i + 1) s'" by blast
    have "\<exists>t'. for_loop (i + 1) n body s' = Inr t' \<and> I (max (i + 1) n) t'"
    proof (rule "1.IH" [OF True s'(1) s'(2)])
      fix k t assume "i + 1 \<le> k" "k < n" "I k t"
      then show "\<exists>t'. body k t = Inr t' \<and> I (k + 1) t'"
        using "1.prems"(2) [of k t] by simp
    qed
    moreover have "max (i + 1) n = max i n" using True by simp
    ultimately show ?thesis using for_loop_step [of i n body s s'] True s'(1) by simp
  qed
qed

lemma dims_ok_row: "dims_ok w h rows \<Longrightarrow> 0 \<le> y \<Longrightarrow> y < h \<Longrightarrow> length (rows ! nat y) = nat w"
  by (simp add: dims_ok_def)

lemma load2_ok:
  "dims_ok w h rows \<Longrightarrow> 0 \<le> x \<Longrightarrow> x < w \<Longrightarrow> 0 \<le> y \<Longrightarrow> y < h \<Longrightarrow> load2 rows y x = Inr (cell rows x y)"
  by (simp add: load2_def index_def cell_def dims_ok_def)

lemma store2_ok:
  "dims_ok w h rows \<Longrightarrow> 0 \<le> x \<Longrightarrow> x < w \<Longrightarrow> 0 \<le> y \<Longrightarrow> y < h \<Longrightarrow>
   store2 rows y x v = Inr (rows[nat y := (rows ! nat y)[nat x := v]])"
  by (simp add: store2_def index_def store_def dims_ok_def)

lemma dims_ok_update:
  "dims_ok w h rows \<Longrightarrow> dims_ok w h (rows[nat y := (rows ! nat y)[nat x := v]])"
proof (cases "nat y < length rows")
  case True
  assume "dims_ok w h rows"
  then show ?thesis using True
    by (auto simp: dims_ok_def dest!: set_update_subset_insert [THEN subsetD])
next
  case False
  assume "dims_ok w h rows"
  then show ?thesis using False by (simp add: list_update_beyond)
qed

lemma cell_update:
  "dims_ok w h rows \<Longrightarrow> 0 \<le> x \<Longrightarrow> x < w \<Longrightarrow> 0 \<le> y \<Longrightarrow> y < h \<Longrightarrow>
   0 \<le> x' \<Longrightarrow> 0 \<le> y' \<Longrightarrow> 
   cell (rows[nat y := (rows ! nat y)[nat x := v]]) x' y' = (if x' = x \<and> y' = y then v else cell rows x' y')"
  by (auto simp: cell_def dims_ok_def nth_list_update)

lemma At_ok: "well_formed g \<Longrightarrow> At g x y = Inr (alive g x y)"
  by (auto simp: At_def alive_def in_bounds_def well_formed_def load2_ok)

lemma At_outside: "\<not> in_bounds g x y \<Longrightarrow> At g x y = Inr False"
  by (auto simp: At_def in_bounds_def)

lemma count_if: "(if a then c + 1 else c) = c + (of_bool a :: int)"
  by simp

lemma length_filter_of_bool:
  "int (length (filter P (d # ds))) = of_bool (P d) + int (length (filter P ds))"
  by simp

lemma CellValue_ok: "well_formed g \<Longrightarrow> CellValue g x y = Inr (neighbours g x y)"
  unfolding CellValue_def CellValue_step_def neighbours_def moore_def length_filter_of_bool count_if
  by (simp add: for_loop.simps At_ok del: filter.simps add: diff_add_eq add.commute)

section \<open>Update computes the rule\<close>

lemma alive_cong:
  "width g = width g0 \<Longrightarrow> height g = height g0 \<Longrightarrow> data g = data g0 \<Longrightarrow> alive g = alive g0"
  by (intro ext) (simp add: alive_def in_bounds_def)

lemma neighbours_cong:
  "width g = width g0 \<Longrightarrow> height g = height g0 \<Longrightarrow> data g = data g0 \<Longrightarrow> neighbours g = neighbours g0"
  by (intro ext) (simp add: neighbours_def alive_cong [of g g0])

lemma staged_cong:
  "(\<And>x y. in_bounds g0 x y \<Longrightarrow> P x y = Q x y) \<Longrightarrow> staged g0 P g \<Longrightarrow> staged g0 Q g"
  by (simp add: staged_def)

lemma flushed_cong:
  "(\<And>x y. in_bounds g0 x y \<Longrightarrow> P x y = Q x y) \<Longrightarrow> flushed g0 P g \<Longrightarrow> flushed g0 Q g"
  by (simp add: flushed_def)

lemma well_formed_back_buffer:
  "well_formed g \<Longrightarrow> well_formed (g\<lparr>back_buffer := (back_buffer g)[nat y := (back_buffer g ! nat y)[nat x := v]]\<rparr>)"
  by (simp add: well_formed_def dims_ok_update)

lemma well_formed_data:
  "well_formed g \<Longrightarrow> well_formed (g\<lparr>data := (data g)[nat y := (data g ! nat y)[nat x := v]]\<rparr>)"
  by (simp add: well_formed_def dims_ok_update)

lemma Update_cell_staged:
  assumes st: "staged g0 (\<lambda>x y. y < i \<or> (y = i \<and> x < j)) g"
    and b: "0 \<le> i" "i < height g0" "0 \<le> j" "j < width g0"
  shows "\<exists>g'. Update_cell i j g = Inr g' \<and> staged g0 (\<lambda>x y. y < i \<or> (y = i \<and> x < j + 1)) g'"
proof -
  from st have wf: "well_formed g" and w: "width g = width g0" and h: "height g = height g0"
    and d: "data g = data g0"
    and bb: "\<And>x y. in_bounds g0 x y \<Longrightarrow>
      cell (back_buffer g) x y = (if y < i \<or> (y = i \<and> x < j) then next_alive g0 x y else cell (data g0) x y)"
    by (simp_all add: staged_def)
  have al: "alive g = alive g0" and nb: "neighbours g = neighbours g0"
    using w h d by (rule alive_cong, rule neighbours_cong)
  have dims: "dims_ok (width g0) (height g0) (back_buffer g)"
    using wf w h by (simp add: well_formed_def)
  have here: "cell (back_buffer g) j i = alive g0 j i"
    using bb [of j i] b by (simp add: in_bounds_def alive_def)
  have st2: "store2 (back_buffer g) i j v = Inr ((back_buffer g)[nat i := (back_buffer g ! nat i)[nat j := v]])" for v
    using store2_ok [OF dims b(3,4,1,2)] .
  let ?g' = "\<lambda>v. g\<lparr>back_buffer := (back_buffer g)[nat i := (back_buffer g ! nat i)[nat j := v]]\<rparr>"
  have upd: "staged g0 (\<lambda>x y. y < i \<or> (y = i \<and> x < j + 1)) (?g' v)" if "v = next_alive g0 j i" for v
    unfolding staged_def
  proof (intro conjI allI impI)
    show "well_formed (?g' v)" using wf by (rule well_formed_back_buffer)
    fix x y assume ib: "in_bounds g0 x y"
    then have "cell (back_buffer (?g' v)) x y = (if x = j \<and> y = i then v else cell (back_buffer g) x y)"
      using cell_update [OF dims b(3,4,1,2), of x y v] by (simp add: in_bounds_def)
    then show "cell (back_buffer (?g' v)) x y =
        (if y < i \<or> y = i \<and> x < j + 1 then next_alive g0 x y else cell (data g0) x y)"
      using bb [OF ib] that by auto
  qed (simp_all add: w h d)
  have keep: "staged g0 (\<lambda>x y. y < i \<or> (y = i \<and> x < j + 1)) g" if "alive g0 j i = next_alive g0 j i"
    unfolding staged_def
  proof (intro conjI allI impI)
    fix x y assume ib: "in_bounds g0 x y"
    show "cell (back_buffer g) x y =
        (if y < i \<or> y = i \<and> x < j + 1 then next_alive g0 x y else cell (data g0) x y)"
      using bb [OF ib] that here by (cases "x = j \<and> y = i") auto
  qed (simp_all add: wf w h d)
  show ?thesis
    unfolding Update_cell_def
    using upd keep
    by (auto simp: CellValue_ok [OF wf] At_ok [OF wf] al nb st2 next_alive_def)
qed

lemma Update_row_staged:
  assumes st: "staged g0 (\<lambda>x y. y < i) g" and b: "0 \<le> i" "i < height g0" and w: "0 < width g0"
  shows "\<exists>g'. for_loop 0 (width g0) (\<lambda>j. Update_cell i j) g = Inr g' \<and> staged g0 (\<lambda>x y. y < i + 1) g'"
proof -
  have "\<exists>g'. for_loop 0 (width g0) (\<lambda>j. Update_cell i j) g = Inr g'
      \<and> staged g0 (\<lambda>x y. y < i \<or> (y = i \<and> x < max 0 (width g0))) g'"
  proof (rule for_loop_rule [where I = "\<lambda>j. staged g0 (\<lambda>x y. y < i \<or> (y = i \<and> x < j))"])
    show "staged g0 (\<lambda>x y. y < i \<or> y = i \<and> x < 0) g"
      using st by (rule staged_cong [rotated]) (auto simp: in_bounds_def)
  next
    fix k t assume "0 \<le> k" "k < width g0" "staged g0 (\<lambda>x y. y < i \<or> y = i \<and> x < k) t"
    then show "\<exists>t'. Update_cell i k t = Inr t' \<and> staged g0 (\<lambda>x y. y < i \<or> y = i \<and> x < k + 1) t'"
      using Update_cell_staged [of g0 i k t] b by simp
  qed
  then obtain g' where g': "for_loop 0 (width g0) (\<lambda>j. Update_cell i j) g = Inr g'"
    "staged g0 (\<lambda>x y. y < i \<or> (y = i \<and> x < max 0 (width g0))) g'" by blast
  have "staged g0 (\<lambda>x y. y < i + 1) g'"
    using g'(2) by (rule staged_cong [rotated]) (auto simp: in_bounds_def)
  with g'(1) show ?thesis by blast
qed

lemma Update_loops_staged:
  assumes "in_sync g0"
  shows "\<exists>g'. for_loop 0 (height g0) (\<lambda>i. for_loop 0 (width g0) (\<lambda>j. Update_cell i j)) g0 = Inr g'
      \<and> staged g0 (\<lambda>x y. True) g'"
proof -
  from assms have wf: "well_formed g0" and sync: "back_buffer g0 = data g0"
    by (simp_all add: in_sync_def)
  then have pos: "0 < width g0" "0 < height g0" by (simp_all add: well_formed_def)
  have "\<exists>g'. for_loop 0 (height g0) (\<lambda>i. for_loop 0 (width g0) (\<lambda>j. Update_cell i j)) g0 = Inr g'
      \<and> staged g0 (\<lambda>x y. y < max 0 (height g0)) g'"
  proof (rule for_loop_rule [where I = "\<lambda>i. staged g0 (\<lambda>x y. y < i)"])
    show "staged g0 (\<lambda>x y. y < 0) g0"
      using wf sync by (simp add: staged_def in_bounds_def)
  next
    fix k t assume "0 \<le> k" "k < height g0" "staged g0 (\<lambda>x y. y < k) t"
    then show "\<exists>t'. for_loop 0 (width g0) (\<lambda>j. Update_cell k j) t = Inr t' \<and> staged g0 (\<lambda>x y. y < k + 1) t'"
      using Update_row_staged [of g0 k t] pos by simp
  qed
  then obtain g' where g': "for_loop 0 (height g0) (\<lambda>i. for_loop 0 (width g0) (\<lambda>j. Update_cell i j)) g0 = Inr g'"
    "staged g0 (\<lambda>x y. y < max 0 (height g0)) g'" by blast
  have "staged g0 (\<lambda>x y. True) g'"
    using g'(2) by (rule staged_cong [rotated]) (auto simp: in_bounds_def)
  with g'(1) show ?thesis by blast
qed

lemma Flush_cell_flushed:
  assumes st: "flushed g0 (\<lambda>x y. y < i \<or> (y = i \<and> x < j)) g"
    and b: "0 \<le> i" "i < height g0" "0 \<le> j" "j < width g0"
  shows "\<exists>g'. Flush_cell i j g = Inr g' \<and> flushed g0 (\<lambda>x y. y < i \<or> (y = i \<and> x < j + 1)) g'"
proof -
  from st have wf: "well_formed g" and w: "width g = width g0" and h: "height g = height g0"
    and bb: "back_buffer g = back_buffer g0"
    and d: "\<And>x y. in_bounds g0 x y \<Longrightarrow>
      cell (data g) x y = (if y < i \<or> (y = i \<and> x < j) then cell (back_buffer g0) x y else cell (data g0) x y)"
    by (simp_all add: flushed_def)
  have dims: "dims_ok (width g0) (height g0) (data g)" "dims_ok (width g0) (height g0) (back_buffer g)"
    using wf w h by (simp_all add: well_formed_def)
  let ?v = "cell (back_buffer g0) j i"
  let ?g' = "g\<lparr>data := (data g)[nat i := (data g ! nat i)[nat j := ?v]]\<rparr>"
  have ld: "load2 (back_buffer g) i j = Inr ?v"
    using load2_ok [OF dims(2) b(3,4,1,2)] bb by simp
  have st2: "store2 (data g) i j ?v = Inr ((data g)[nat i := (data g ! nat i)[nat j := ?v]])"
    using store2_ok [OF dims(1) b(3,4,1,2)] .
  have "flushed g0 (\<lambda>x y. y < i \<or> (y = i \<and> x < j + 1)) ?g'"
    unfolding flushed_def
  proof (intro conjI allI impI)
    show "well_formed ?g'" using wf by (rule well_formed_data)
    fix x y assume ib: "in_bounds g0 x y"
    then have "cell (data ?g') x y = (if x = j \<and> y = i then ?v else cell (data g) x y)"
      using cell_update [OF dims(1) b(3,4,1,2), of x y ?v] by (simp add: in_bounds_def)
    then show "cell (data ?g') x y =
        (if y < i \<or> y = i \<and> x < j + 1 then cell (back_buffer g0) x y else cell (data g0) x y)"
      using d [OF ib] by auto
  qed (simp_all add: w h bb)
  then show ?thesis by (simp add: Flush_cell_def ld st2)
qed

lemma Flush_row_flushed:
  assumes st: "flushed g0 (\<lambda>x y. y < i) g" and b: "0 \<le> i" "i < height g0" and w: "0 < width g0"
  shows "\<exists>g'. for_loop 0 (width g0) (\<lambda>j. Flush_cell i j) g = Inr g' \<and> flushed g0 (\<lambda>x y. y < i + 1) g'"
proof -
  have "\<exists>g'. for_loop 0 (width g0) (\<lambda>j. Flush_cell i j) g = Inr g'
      \<and> flushed g0 (\<lambda>x y. y < i \<or> (y = i \<and> x < max 0 (width g0))) g'"
  proof (rule for_loop_rule [where I = "\<lambda>j. flushed g0 (\<lambda>x y. y < i \<or> (y = i \<and> x < j))"])
    show "flushed g0 (\<lambda>x y. y < i \<or> y = i \<and> x < 0) g"
      using st by (rule flushed_cong [rotated]) (auto simp: in_bounds_def)
  next
    fix k t assume "0 \<le> k" "k < width g0" "flushed g0 (\<lambda>x y. y < i \<or> y = i \<and> x < k) t"
    then show "\<exists>t'. Flush_cell i k t = Inr t' \<and> flushed g0 (\<lambda>x y. y < i \<or> y = i \<and> x < k + 1) t'"
      using Flush_cell_flushed [of g0 i k t] b by simp
  qed
  then obtain g' where g': "for_loop 0 (width g0) (\<lambda>j. Flush_cell i j) g = Inr g'"
    "flushed g0 (\<lambda>x y. y < i \<or> (y = i \<and> x < max 0 (width g0))) g'" by blast
  have "flushed g0 (\<lambda>x y. y < i + 1) g'"
    using g'(2) by (rule flushed_cong [rotated]) (auto simp: in_bounds_def)
  with g'(1) show ?thesis by blast
qed

lemma Flush_flushed:
  assumes wf: "well_formed g0"
  shows "\<exists>g'. Flush g0 = Inr g' \<and> flushed g0 (\<lambda>x y. True) g'"
proof -
  from wf have pos: "0 < width g0" "0 < height g0" by (simp_all add: well_formed_def)
  have "\<exists>g'. for_loop 0 (height g0) (\<lambda>i. for_loop 0 (width g0) (\<lambda>j. Flush_cell i j)) g0 = Inr g'
      \<and> flushed g0 (\<lambda>x y. y < max 0 (height g0)) g'"
  proof (rule for_loop_rule [where I = "\<lambda>i. flushed g0 (\<lambda>x y. y < i)"])
    show "flushed g0 (\<lambda>x y. y < 0) g0"
      using wf by (simp add: flushed_def in_bounds_def)
  next
    fix k t assume "0 \<le> k" "k < height g0" "flushed g0 (\<lambda>x y. y < k) t"
    then show "\<exists>t'. for_loop 0 (width g0) (\<lambda>j. Flush_cell k j) t = Inr t' \<and> flushed g0 (\<lambda>x y. y < k + 1) t'"
      using Flush_row_flushed [of g0 k t] pos by simp
  qed
  then obtain g' where g': "Flush g0 = Inr g'" "flushed g0 (\<lambda>x y. y < max 0 (height g0)) g'"
    unfolding Flush_def by blast
  have "flushed g0 (\<lambda>x y. True) g'"
    using g'(2) by (rule flushed_cong [rotated]) (auto simp: in_bounds_def)
  with g'(1) show ?thesis by blast
qed

lemma rows_eqI:
  assumes a: "dims_ok w h rows" and b: "dims_ok w h rows'"
    and c: "\<And>x y. 0 \<le> x \<Longrightarrow> x < w \<Longrightarrow> 0 \<le> y \<Longrightarrow> y < h \<Longrightarrow> cell rows x y = cell rows' x y"
  shows "rows = rows'"
proof (rule nth_equalityI)
  show "length rows = length rows'" using a b by (simp add: dims_ok_def)
next
  fix i assume i: "i < length rows"
  then have ih: "int i < h" using a by (auto simp: dims_ok_def)
  have la: "length (rows ! i) = nat w" using a i by (simp add: dims_ok_def)
  have lb: "length (rows' ! i) = nat w" using a b i by (simp add: dims_ok_def)
  show "rows ! i = rows' ! i"
  proof (rule nth_equalityI)
    show "length (rows ! i) = length (rows' ! i)" using la lb by simp
  next
    fix j assume "j < length (rows ! i)"
    then have "int j < w" using la by simp
    then show "rows ! i ! j = rows' ! i ! j"
      using c [of "int j" "int i"] ih by (simp add: cell_def)
  qed
qed

lemma dims_ok_rows_of: "dims_ok w h (rows_of w h f)"
  by (auto simp: dims_ok_def rows_of_def)

lemma cell_rows_of:
  "0 \<le> x \<Longrightarrow> x < w \<Longrightarrow> 0 \<le> y \<Longrightarrow> y < h \<Longrightarrow> cell (rows_of w h f) x y = f x y"
  by (simp add: cell_def rows_of_def)

lemma Update_ok:
  assumes "in_sync g"
  shows "Update g = Inr (Advance g)"
proof -
  from Update_loops_staged [OF assms] obtain g1 where
    g1: "for_loop 0 (height g) (\<lambda>i. for_loop 0 (width g) (\<lambda>j. Update_cell i j)) g = Inr g1"
    and s1: "staged g (\<lambda>x y. True) g1" by blast
  from s1 have wf1: "well_formed g1" by (simp add: staged_def)
  from Flush_flushed [OF wf1] obtain g2 where g2: "Flush g1 = Inr g2"
    and s2: "flushed g1 (\<lambda>x y. True) g2" by blast
  have w: "width g2 = width g" and h: "height g2 = height g"
    using s1 s2 by (simp_all add: staged_def flushed_def)
  have wf2: "well_formed g2" using s2 by (simp add: flushed_def)
  have bb: "back_buffer g2 = back_buffer g1" using s2 by (simp add: flushed_def)
  have c1: "cell (back_buffer g1) x y = next_alive g x y" if "in_bounds g x y" for x y
    using s1 that by (simp add: staged_def)
  have c2: "cell (data g2) x y = cell (back_buffer g1) x y" if "in_bounds g x y" for x y
    using s1 s2 that by (simp add: staged_def flushed_def in_bounds_def)
  have d2: "data g2 = rows_of (width g) (height g) (next_alive g)"
  proof (rule rows_eqI [of "width g" "height g"])
    show "dims_ok (width g) (height g) (data g2)" using wf2 w h by (simp add: well_formed_def)
    show "dims_ok (width g) (height g) (rows_of (width g) (height g) (next_alive g))"
      by (rule dims_ok_rows_of)
    fix x y assume "0 \<le> x" "x < width g" "0 \<le> y" "y < height g"
    then show "cell (data g2) x y = cell (rows_of (width g) (height g) (next_alive g)) x y"
      using c1 [of x y] c2 [of x y] by (simp add: cell_rows_of in_bounds_def)
  qed
  have b2: "back_buffer g2 = rows_of (width g) (height g) (next_alive g)"
  proof (rule rows_eqI [of "width g" "height g"])
    show "dims_ok (width g) (height g) (back_buffer g2)" using wf2 w h by (simp add: well_formed_def)
    show "dims_ok (width g) (height g) (rows_of (width g) (height g) (next_alive g))"
      by (rule dims_ok_rows_of)
    fix x y assume "0 \<le> x" "x < width g" "0 \<le> y" "y < height g"
    then show "cell (back_buffer g2) x y = cell (rows_of (width g) (height g) (next_alive g)) x y"
      using c1 [of x y] bb by (simp add: cell_rows_of in_bounds_def)
  qed
  have "g2 = Advance g"
    by (rule GameOfLife.equality) (simp_all add: Advance_def w h d2 b2)
  then show ?thesis by (simp add: Update_def g1 g2)
qed

lemma in_sync_Advance: "in_sync g \<Longrightarrow> in_sync (Advance g)"
  by (simp add: in_sync_def well_formed_def Advance_def dims_ok_rows_of)

lemma replicate_append_update:
  "i < h \<Longrightarrow> (replicate i r @ replicate (h - i) e)[i := r] = replicate (Suc i) r @ replicate (h - Suc i) e"
proof -
  assume "i < h"
  then obtain n where n: "h - i = Suc n" "h - Suc i = n" by (cases "h - i") auto
  show ?thesis by (simp add: n list_update_append replicate_app_Cons_same)
qed

lemma NewGameOfLife_rows:
  assumes "0 < w" "0 < h"
  shows "for_loop 0 h (NewGameOfLife_row w) (replicate (nat h) [], replicate (nat h) [])
    = Inr (replicate (nat h) (replicate (nat w) False), replicate (nat h) (replicate (nat w) False))"
proof -
  let ?r = "replicate (nat w) False"
  let ?I = "\<lambda>i bufs. bufs = (replicate (nat i) ?r @ replicate (nat h - nat i) [],
                           replicate (nat i) ?r @ replicate (nat h - nat i) [])"
  have "\<exists>t'. for_loop 0 h (NewGameOfLife_row w) (replicate (nat h) [], replicate (nat h) []) = Inr t'
      \<and> ?I (max 0 h) t'"
  proof (rule for_loop_rule [where I = ?I])
    show "?I 0 (replicate (nat h) [], replicate (nat h) [])" by simp
  next
    fix k t assume k: "0 \<le> k" "k < h" and t: "?I k t"
    have n: "nat k < nat h" "nat (k + 1) = Suc (nat k)" using k by simp_all
    show "\<exists>t'. NewGameOfLife_row w k t = Inr t' \<and> ?I (k + 1) t'"
      using k assms(1) n(1)
      by (simp add: NewGameOfLife_row_def make_slice_def store_def t n(2) replicate_append_update
          del: replicate_Suc)
  qed
  then show ?thesis using assms by simp
qed

lemma NewGameOfLife_ok:
  "0 < w \<Longrightarrow> 0 < h \<Longrightarrow> NewGameOfLife w h =
     Inr (Inr \<lparr>width = w, height = h, data = replicate (nat h) (replicate (nat w) False),
               back_buffer = replicate (nat h) (replicate (nat w) False)\<rparr>)"
  by (simp add: NewGameOfLife_def make_slice_def NewGameOfLife_rows)

lemma Set_ok:
  assumes "well_formed g" "in_bounds g x y"
  shows "Set g x y v = Inr (g\<lparr>data := (data g)[nat y := (data g ! nat y)[nat x := v]],
      back_buffer := (back_buffer g)[nat y := (back_buffer g ! nat y)[nat x := v]]\<rparr>, None)"
  using assms by (auto simp: Set_def well_formed_def in_bounds_def store2_ok)

lemma Set_outside: "\<not> in_bounds g x y \<Longrightarrow> Set g x y v = Inr (g, Some OutOfBounds)"
  by (auto simp: Set_def in_bounds_def)

lemma Set_in_sync:
  assumes "in_sync g" "Set g x y v = Inr (g', e)"
  shows "in_sync g'"
proof (cases "in_bounds g x y")
  case False
  then show ?thesis using assms by (simp add: Set_outside)
next
  case True
  then show ?thesis using assms
    by (auto simp: Set_ok in_sync_def well_formed_def dims_ok_update)
qed

lemma alive_Advance: "in_bounds g x y \<Longrightarrow> alive (Advance g) x y = next_alive g x y"
  unfolding alive_def in_bounds_def by (auto simp: Advance_def cell_rows_of)

section \<open>Claims about the grid engine\<close>

text \<open>
  Claim C7. \<^verbatim>\<open>At\<close> never panics on a well-formed grid: inside the grid it returns the
  cell of the current buffer, outside \<open>[0, width) \<times> [0, height)\<close> it returns false,
  without wraparound. For a coordinate outside the grid the answer is false whatever the
  buffers are, also on a structure whose buffers are too short to be indexed: the slice is
  not read.
\<close>
theorem At_total:
  "(well_formed g \<longrightarrow> At g x y = Inr (if in_bounds g x y then cell (data g) x y else False))
   \<and> (\<not> in_bounds g x y \<longrightarrow> At g x y = Inr False)"
  by (auto simp: At_ok alive_def At_outside)

theorem At_total_witness:
  "well_formed block_grid \<and> At block_grid 1 0 = Inr True \<and> At block_grid 2 0 = Inr False
   \<and> At block_grid 0 (- 1) = Inr False"
  using At_total [of block_grid 1 0] At_total [of block_grid 2 0] At_total [of block_grid 0 "- 1"]
  by (simp add: block_grid_def grid_of_def well_formed_def dims_ok_def in_bounds_def cell_def)

text \<open>
  Claim C6. For a coordinate outside the grid, \<^verbatim>\<open>Set\<close> returns the out-of-bounds error
  and the structure it was given, unchanged. For a coordinate inside a well-formed grid
  it returns no error, and the cell has the new value in both buffers while every other
  cell of both buffers keeps its value.
\<close>
theorem Set_bounds:
  "(\<not> in_bounds g x y \<longrightarrow> Set g x y v = Inr (g, Some OutOfBounds))
   \<and> (well_formed g \<and> in_bounds g x y \<longrightarrow>
        (\<exists>g'. Set g x y v = Inr (g', None) \<and> well_formed g'
           \<and> width g' = width g \<and> height g' = height g
           \<and> (\<forall>x' y'. in_bounds g x' y' \<longrightarrow>
                 cell (data g') x' y' = (if x' = x \<and> y' = y then v else cell (data g) x' y')
               \<and> cell (back_buffer g') x' y' = (if x' = x \<and> y' = y then v else cell (back_buffer g) x' y'))))"
proof (intro conjI impI)
  assume "\<not> in_bounds g x y"
  then show "Set g x y v = Inr (g, Some OutOfBounds)" by (rule Set_outside)
next
  assume a: "well_formed g \<and> in_bounds g x y"
  then have wf: "well_formed g" and ib: "in_bounds g x y" by simp_all
  let ?g' = "g\<lparr>data := (data g)[nat y := (data g ! nat y)[nat x := v]],
      back_buffer := (back_buffer g)[nat y := (back_buffer g ! nat y)[nat x := v]]\<rparr>"
  have d: "dims_ok (width g) (height g) (data g)" "dims_ok (width g) (height g) (back_buffer g)"
    using wf by (simp_all add: well_formed_def)
  have b: "0 \<le> x" "x < width g" "0 \<le> y" "y < height g" using ib by (simp_all add: in_bounds_def)
  have "well_formed ?g'" using wf by (simp add: well_formed_def dims_ok_update)
  moreover have "\<forall>x' y'. in_bounds g x' y' \<longrightarrow>
                 cell (data ?g') x' y' = (if x' = x \<and> y' = y then v else cell (data g) x' y')
               \<and> cell (back_buffer ?g') x' y' = (if x' = x \<and> y' = y then v else cell (back_buffer g) x' y')"
    using cell_update [OF d(1) b] cell_update [OF d(2) b] by (simp add: in_bounds_def)
  ultimately show "\<exists>g'. Set g x y v = Inr (g', None) \<and> well_formed g'
           \<and> width g' = width g \<and> height g' = height g
           \<and> (\<forall>x' y'. in_bounds g x' y' \<longrightarrow>
                 cell (data g') x' y' = (if x' = x \<and> y' = y then v else cell (data g) x' y')
               \<and> cell (back_buffer g') x' y' = (if x' = x \<and> y' = y then v else cell (back_buffer g) x' y'))"
    using Set_ok [OF wf ib, of v] by (intro exI [of _ ?g']) simp
qed

theorem Set_bounds_witness:
  "Set block_grid 2 0 False = Inr (block_grid, Some OutOfBounds)
   \<and> Set block_grid 0 (- 1) False = Inr (block_grid, Some OutOfBounds)
   \<and> well_formed block_grid \<and> in_bounds block_grid 1 0
   \<and> Set block_grid 1 0 False =
       Inr (block_grid\<lparr>data := [[True, False], [True, True]], back_buffer := [[True, False], [True, True]]\<rparr>, None)"
  using Set_bounds [of block_grid 2 0 False] Set_bounds [of block_grid 0 "- 1" False]
    Set_bounds [of block_grid 1 0 False]
  by (simp add: block_grid_def grid_of_def well_formed_def dims_ok_def in_bounds_def Set_def
      store2_def index_def store_def)

text \<open>
  Claim C1. On a grid whose two buffers agree (every grid that the constructor,
  \<^verbatim>\<open>Set\<close> and \<^verbatim>\<open>Update\<close> produce), \<^verbatim>\<open>Update\<close> does not panic,
  and afterwards the cell at an in-bounds \<open>(x, y)\<close> is alive exactly when it was alive with
  2 or 3 alive Moore neighbours or dead with exactly 3; \<open>alive\<close> and \<open>neighbours\<close> are
  those of the grid before the call, and positions off the grid count as dead.
\<close>
theorem Update_rule:
  "in_sync g \<Longrightarrow>
   \<exists>g'. Update g = Inr g' \<and>
     (\<forall>x y. in_bounds g x y \<longrightarrow>
        At g' x y = Inr ((alive g x y \<and> (neighbours g x y = 2 \<or> neighbours g x y = 3))
                         \<or> (\<not> alive g x y \<and> neighbours g x y = 3)))"
proof -
  assume s: "in_sync g"
  have wf: "well_formed (Advance g)" using in_sync_Advance [OF s] by (simp add: in_sync_def)
  have "At (Advance g) x y = Inr ((alive g x y \<and> (neighbours g x y = 2 \<or> neighbours g x y = 3))
                         \<or> (\<not> alive g x y \<and> neighbours g x y = 3))" if "in_bounds g x y" for x y
    using that by (auto simp: At_ok [OF wf] alive_Advance next_alive_def)
  then show ?thesis using Update_ok [OF s] by simp
qed

theorem Update_rule_witness:
  "in_sync block_grid \<and> Update block_grid = Inr block_grid \<and> in_bounds block_grid 1 1
   \<and> alive block_grid 1 1 \<and> neighbours block_grid 1 1 = 3"
proof -
  have s: "in_sync block_grid"
    by (simp add: block_grid_def grid_of_def in_sync_def well_formed_def dims_ok_def)
  have a: "alive block_grid x y = (x \<in> {0, 1} \<and> y \<in> {0, 1})" for x y
    by (auto simp: alive_def block_grid_def grid_of_def in_bounds_def cell_def nth_Cons split: nat.splits)
  have n: "neighbours block_grid 1 1 = 3" by (simp add: neighbours_def moore_def a)
  from Update_rule [OF s] obtain g' where g': "Update block_grid = Inr g'" by blast
  have "Update block_grid = Inr (Advance block_grid)" using Update_ok [OF s] .
  moreover have "Advance block_grid = block_grid"
    by code_simp
  ultimately have u: "Update block_grid = Inr block_grid" using g' by simp
  have b: "in_bounds block_grid 1 1" by (simp add: in_bounds_def block_grid_def grid_of_def)
  show ?thesis using s u b n by (simp add: a)
qed

text \<open>
  Claim C9. The two buffers hold the same \<open>width \<times> height\<close> cells after construction,
  after every \<^verbatim>\<open>Set\<close> that returns and after every \<^verbatim>\<open>Update\<close>. \<^verbatim>\<open>Update\<close> relies on it:
  it writes only the cells that change, so on \<open>stale_grid\<close>, whose staging buffer
  disagrees with the current one, the dead cell without neighbours comes out alive.
\<close>
theorem buffers_in_sync:
  "(NewGameOfLife w h = Inr (Inr g0) \<longrightarrow> in_sync g0)
   \<and> (in_sync g \<and> Set g x y v = Inr (g1, e) \<longrightarrow> in_sync g1)
   \<and> (in_sync g \<longrightarrow> (\<exists>g2. Update g = Inr g2 \<and> in_sync g2))
   \<and> well_formed stale_grid \<and> \<not> alive stale_grid 0 0 \<and> neighbours stale_grid 0 0 = 0
   \<and> rbind (Update stale_grid) (\<lambda>g3. At g3 0 0) = Inr True"
proof (intro conjI impI)
  assume a: "NewGameOfLife w h = Inr (Inr g0)"
  show "in_sync g0"
  proof (cases "0 < w \<and> 0 < h")
    case True
    then show ?thesis using a
      by (auto simp: NewGameOfLife_ok in_sync_def well_formed_def dims_ok_def)
  next
    case False
    then show ?thesis using a by (auto simp: NewGameOfLife_def)
  qed
next
  assume "in_sync g \<and> Set g x y v = Inr (g1, e)"
  then show "in_sync g1" using Set_in_sync by blast
next
  assume "in_sync g"
  then show "\<exists>g2. Update g = Inr g2 \<and> in_sync g2"
    using Update_ok in_sync_Advance by blast
next
  show "well_formed stale_grid" by (simp add: stale_grid_def well_formed_def dims_ok_def)
  show "\<not> alive stale_grid 0 0" by (simp add: stale_grid_def alive_def cell_def)
  show "neighbours stale_grid 0 0 = 0"
    by (simp add: stale_grid_def neighbours_def moore_def alive_def in_bounds_def)
  show "rbind (Update stale_grid) (\<lambda>g3. At g3 0 0) = Inr True"
    by (simp add: stale_grid_def Update_def Update_cell_def CellValue_def CellValue_step_def
        for_loop.simps At_def load2_def index_def Flush_def Flush_cell_def store2_def store_def)
qed

theorem buffers_in_sync_witness:
  "NewGameOfLife 1 1 = Inr (Inr (grid_of [[False]])) \<and> in_sync (grid_of [[False]])
   \<and> in_sync block_grid
   \<and> Set block_grid 0 0 False = Inr (grid_of [[False, True], [True, True]], None)
   \<and> in_sync (grid_of [[False, True], [True, True]])
   \<and> Update block_grid = Inr block_grid"
proof -
  have n: "NewGameOfLife 1 1 = Inr (Inr (grid_of [[False]]))"
    by (simp add: NewGameOfLife_ok grid_of_def)
  have s: "in_sync block_grid"
    by (simp add: block_grid_def grid_of_def in_sync_def well_formed_def dims_ok_def)
  have t: "Set block_grid 0 0 False = Inr (grid_of [[False, True], [True, True]], None)"
    by (simp add: block_grid_def grid_of_def Set_def store2_def index_def store_def)
  have u: "Update block_grid = Inr block_grid"
  proof -
    have "Advance block_grid = block_grid" by code_simp
    then show ?thesis using Update_ok [OF s] by simp
  qed
  from buffers_in_sync [of 1 1 "grid_of [[False]]" block_grid 0 0 False
      "grid_of [[False, True], [True, True]]" None]
  have "in_sync (grid_of [[False]])" "in_sync (grid_of [[False, True], [True, True]])"
    using n s t by simp_all
  then show ?thesis using n s t u by simp
qed

section \<open>Rendering a frame\<close>

lemma offset_bounds:
  fixes a b d e :: int
  assumes "0 \<le> a" "a < e" "0 \<le> b" "b < d"
  shows "0 \<le> a * d + b" "a * d + b < d * e"
proof -
  have "0 \<le> a * d" using assms by simp
  then show "0 \<le> a * d + b" using assms by simp
  have "a + 1 \<le> e" using assms by simp
  then have "(a + 1) * d \<le> e * d" using assms by (intro mult_right_mono) simp_all
  then show "a * d + b < d * e" using assms by (simp add: algebra_simps)
qed

lemma offset_inj:
  fixes a b a' b' d :: int
  assumes "0 \<le> b" "b < d" "0 \<le> b'" "b' < d" "a * d + b = a' * d + b'"
  shows "a = a' \<and> b = b'"
proof -
  have d: "d \<noteq> 0" "b div d = 0" "b' div d = 0" using assms by simp_all
  have "a = (b + a * d) div d" using d by simp
  also have "\<dots> = (b' + a' * d) div d" using assms(5) by (simp add: add.commute)
  also have "\<dots> = a'" using d by simp
  finally have "a = a'" .
  then show ?thesis using assms(5) by simp
qed

lemma int64_id: "- (2 ^ 63) \<le> x \<Longrightarrow> x < 2 ^ 63 \<Longrightarrow> int64 x = x"
  by (simp add: int64_def)

lemma PixOffset_plain:
  assumes "img_ok img" "Point_In x y (Rect img)"
  shows "PixOffset img x y = (y - MinY (Rect img)) * Stride img + (x - MinX (Rect img))"
    "0 \<le> (y - MinY (Rect img)) * Stride img + (x - MinX (Rect img))"
    "(y - MinY (Rect img)) * Stride img + (x - MinX (Rect img)) < int (length (Pix img))"
proof -
  let ?o = "(y - MinY (Rect img)) * Stride img + (x - MinX (Rect img))"
  from assms(1) have dx: "Dx (Rect img) = MaxX (Rect img) - MinX (Rect img)"
    and dy: "Dy (Rect img) = MaxY (Rect img) - MinY (Rect img)"
    and st: "Stride img = Dx (Rect img)"
    and len: "int (length (Pix img)) = Dx (Rect img) * Dy (Rect img)"
    and lim: "Dx (Rect img) * Dy (Rect img) < 2 ^ 63"
    unfolding img_ok_def by blast+
  have "0 \<le> y - MinY (Rect img)" "y - MinY (Rect img) < Dy (Rect img)"
    "0 \<le> x - MinX (Rect img)" "x - MinX (Rect img) < Dx (Rect img)"
    using assms(2) unfolding dx dy by (simp_all add: Point_In_def)
  from offset_bounds [OF this]
  have b: "0 \<le> ?o" "?o < Dx (Rect img) * Dy (Rect img)" unfolding st by simp_all
  then show "0 \<le> ?o" "?o < int (length (Pix img))" unfolding len by simp_all
  have "?o < 2 ^ 63" using b(2) lim by linarith
  then show "PixOffset img x y = ?o" using b(1) by (simp add: PixOffset_def int64_id)
qed

lemma PixOffset_range:
  assumes "img_ok img" "Point_In x y (Rect img)"
  shows "0 \<le> PixOffset img x y" "PixOffset img x y < int (length (Pix img))"
  using PixOffset_plain [OF assms] by simp_all

lemma PixOffset_inj:
  assumes "img_ok img" "Point_In x y (Rect img)" "Point_In x' y' (Rect img)"
    "PixOffset img x y = PixOffset img x' y'"
  shows "x = x' \<and> y = y'"
proof -
  from assms(1) have dx: "Dx (Rect img) = MaxX (Rect img) - MinX (Rect img)"
    and st: "Stride img = Dx (Rect img)"
    unfolding img_ok_def by blast+
  have "0 \<le> x - MinX (Rect img)" "x - MinX (Rect img) < Stride img"
    "0 \<le> x' - MinX (Rect img)" "x' - MinX (Rect img) < Stride img"
    using assms(2,3) unfolding st dx by (simp_all add: Point_In_def)
  moreover have "(y - MinY (Rect img)) * Stride img + (x - MinX (Rect img))
      = (y' - MinY (Rect img)) * Stride img + (x' - MinX (Rect img))"
    using assms(4) PixOffset_plain(1) [OF assms(1,2)] PixOffset_plain(1) [OF assms(1,3)] by simp
  ultimately have "y - MinY (Rect img) = y' - MinY (Rect img) \<and> x - MinX (Rect img) = x' - MinX (Rect img)"
    by (rule offset_inj)
  then show ?thesis by simp
qed

lemma ColorIndexAt_pixel:
  "img_ok img \<Longrightarrow> Point_In x y (Rect img) \<Longrightarrow> ColorIndexAt img x y = Inr (pixel img x y)"
  using PixOffset_range [of img x y] by (simp add: ColorIndexAt_def index_def pixel_def)

lemma Paletted_Set_outside: "\<not> Point_In x y (Rect img) \<Longrightarrow> Paletted_Set img x y c = Inr img"
  by (simp add: Paletted_Set_def)

lemma Paletted_Set_ok:
  assumes ok: "img_ok img"
  shows "\<exists>img'. Paletted_Set img x y c = Inr img' \<and> img_ok img' \<and> Rect img' = Rect img
    \<and> (\<forall>X Y. Point_In X Y (Rect img) \<longrightarrow>
          pixel img' X Y = (if X = x \<and> Y = y then Palette_Index c else pixel img X Y))"
proof (cases "Point_In x y (Rect img)")
  case False
  then show ?thesis using ok by (auto simp: Paletted_Set_outside)
next
  case True
  let ?img' = "img\<lparr>Pix := (Pix img)[nat (PixOffset img x y) := Palette_Index c]\<rparr>"
  have r: "0 \<le> PixOffset img x y" "PixOffset img x y < int (length (Pix img))"
    using PixOffset_range [OF ok True] by simp_all
  have 1: "Paletted_Set img x y c = Inr ?img'"
    using True r by (simp add: Paletted_Set_def store_def)
  have "img_ok ?img' = img_ok img" by (simp add: img_ok_def)
  then have 2: "img_ok ?img'" using ok by simp
  have 3: "pixel ?img' X Y = (if X = x \<and> Y = y then Palette_Index c else pixel img X Y)"
    if "Point_In X Y (Rect img)" for X Y
  proof (cases "X = x \<and> Y = y")
    case True
    then show ?thesis using r by (simp add: pixel_def PixOffset_def)
  next
    case False
    then have "PixOffset img X Y \<noteq> PixOffset img x y"
      using PixOffset_inj [OF ok that True] by blast
    moreover have "0 \<le> PixOffset img X Y" using PixOffset_range [OF ok that] by simp
    ultimately have "nat (PixOffset img X Y) \<noteq> nat (PixOffset img x y)" using r by simp
    then show ?thesis using False by (auto simp: pixel_def PixOffset_def)
  qed
  show ?thesis using 1 2 3 by (intro exI [of _ ?img']) simp
qed

lemma painted_cong:
  "(\<And>X Y. Point_In X Y (Rect img0) \<Longrightarrow> P X Y = Q X Y) \<Longrightarrow> painted img0 P v img \<Longrightarrow> painted img0 Q v img"
  by (simp add: painted_def)

lemma Paletted_Set_painted:
  assumes p: "painted img0 region v img" and v: "v = Palette_Index c"
  shows "\<exists>img'. Paletted_Set img x y c = Inr img' \<and> painted img0 (\<lambda>X Y. region X Y \<or> (X = x \<and> Y = y)) v img'"
proof -
  from p have ok: "img_ok img" and r: "Rect img = Rect img0" by (simp_all add: painted_def)
  from Paletted_Set_ok [OF ok, of x y c] obtain img' where
    i: "Paletted_Set img x y c = Inr img'" "img_ok img'" "Rect img' = Rect img"
    "\<And>X Y. Point_In X Y (Rect img) \<Longrightarrow>
          pixel img' X Y = (if X = x \<and> Y = y then Palette_Index c else pixel img X Y)"
    by blast
  have "painted img0 (\<lambda>X Y. region X Y \<or> (X = x \<and> Y = y)) v img'"
    using p i(2,3) i(4) v by (auto simp: painted_def)
  with i(1) show ?thesis by blast
qed

lemma DrawRect_row_painted:
  assumes p: "painted img0 (\<lambda>X Y. x0 \<le> X \<and> X \<le> x1 \<and> y0 \<le> Y \<and> Y < i) v img" and v: "v = Palette_Index c"
    and True: "y0 \<le> i"
  shows "\<exists>img'. for_loop x0 (x1 + 1) (\<lambda>j im. Paletted_Set im j i c) img = Inr img'
    \<and> painted img0 (\<lambda>X Y. x0 \<le> X \<and> X \<le> x1 \<and> y0 \<le> Y \<and> Y < i + 1) v img'"
proof -
  let ?I = "\<lambda>j. painted img0 (\<lambda>X Y. (x0 \<le> X \<and> X \<le> x1 \<and> y0 \<le> Y \<and> Y < i) \<or> (Y = i \<and> x0 \<le> X \<and> X < j)) v"
  have "\<exists>img'. for_loop x0 (x1 + 1) (\<lambda>j im. Paletted_Set im j i c) img = Inr img' \<and> ?I (max x0 (x1 + 1)) img'"
  proof (rule for_loop_rule [where I = ?I])
    show "?I x0 img" using p by (rule painted_cong [rotated]) auto
  next
    fix k t assume k: "x0 \<le> k" "k < x1 + 1" and t: "?I k t"
    from Paletted_Set_painted [OF t v, of k i] obtain t' where
      t': "Paletted_Set t k i c = Inr t'"
      "painted img0 (\<lambda>X Y. ((x0 \<le> X \<and> X \<le> x1 \<and> y0 \<le> Y \<and> Y < i) \<or> (Y = i \<and> x0 \<le> X \<and> X < k)) \<or> (X = k \<and> Y = i)) v t'"
      by blast
    have "?I (k + 1) t'" using t'(2) by (rule painted_cong [rotated]) (use k in auto)
    with t'(1) show "\<exists>t'. Paletted_Set t k i c = Inr t' \<and> ?I (k + 1) t'" by blast
  qed
  then obtain img' where i: "for_loop x0 (x1 + 1) (\<lambda>j im. Paletted_Set im j i c) img = Inr img'"
    "?I (max x0 (x1 + 1)) img'" by blast
  have "painted img0 (\<lambda>X Y. x0 \<le> X \<and> X \<le> x1 \<and> y0 \<le> Y \<and> Y < i + 1) v img'"
    using i(2) by (rule painted_cong [rotated]) (use True in auto)
  with i(1) show ?thesis by blast
qed

text \<open>
  Below the largest \<^verbatim>\<open>int\<close> no counter of \<^verbatim>\<open>DrawRect\<close> wraps, and its loops are counted
  loops.
\<close>

lemma DrawRect_row_loop:
  "x1 < max_int \<Longrightarrow> - (2 ^ 63) \<le> j \<Longrightarrow>
   DrawRect_row j x1 i c img = Some (for_loop j (x1 + 1) (\<lambda>j im. Paletted_Set im j i c) img)"
proof (induction "nat (x1 + 1 - j)" arbitrary: j img)
  case 0
  then have "\<not> j \<le> x1" by simp
  then show ?case
    by (subst DrawRect_row.simps, subst for_loop.simps) simp
next
  case (Suc n)
  then have le: "j \<le> x1" by linarith
  have w: "int64 (j + 1) = j + 1"
    using le Suc.prems by (intro int64_id) (simp_all add: max_int_def)
  have n: "n = nat (x1 + 1 - (j + 1))" using Suc.hyps(2) by linarith
  have ih: "DrawRect_row (j + 1) x1 i c t =
      Some (for_loop (j + 1) (x1 + 1) (\<lambda>j im. Paletted_Set im j i c) t)" for t
    using Suc.hyps(1) [OF n Suc.prems(1)] Suc.prems(2) by simp
  show ?case
    by (subst DrawRect_row.simps, subst for_loop.simps) (simp add: le w ih split: sum.splits)
qed

lemma DrawRect_rows_loop:
  "x1 < max_int \<Longrightarrow> y1 < max_int \<Longrightarrow> - (2 ^ 63) \<le> x0 \<Longrightarrow> - (2 ^ 63) \<le> i \<Longrightarrow>
   DrawRect_rows i x0 x1 y1 c img =
     Some (for_loop i (y1 + 1) (\<lambda>i. for_loop x0 (x1 + 1) (\<lambda>j im. Paletted_Set im j i c)) img)"
proof (induction "nat (y1 + 1 - i)" arbitrary: i img)
  case 0
  then have "\<not> i \<le> y1" by simp
  then show ?case
    by (subst DrawRect_rows.simps, subst for_loop.simps) simp
next
  case (Suc n)
  then have le: "i \<le> y1" by linarith
  have w: "int64 (i + 1) = i + 1"
    using le Suc.prems by (intro int64_id) (simp_all add: max_int_def)
  have n: "n = nat (y1 + 1 - (i + 1))" using Suc.hyps(2) by linarith
  have ih: "DrawRect_rows (i + 1) x0 x1 y1 c t =
      Some (for_loop (i + 1) (y1 + 1) (\<lambda>i. for_loop x0 (x1 + 1) (\<lambda>j im. Paletted_Set im j i c)) t)"
    for t
    using Suc.hyps(1) [OF n Suc.prems(1,2,3)] Suc.prems(4) by simp
  show ?case
    by (subst DrawRect_rows.simps, subst for_loop.simps)
      (simp add: le w ih DrawRect_row_loop [OF Suc.prems(1,3)] split: sum.splits)
qed

lemma DrawRect_loops:
  "x1 < max_int \<Longrightarrow> y1 < max_int \<Longrightarrow> - (2 ^ 63) \<le> x0 \<Longrightarrow> - (2 ^ 63) \<le> y0 \<Longrightarrow>
   DrawRect x0 y0 x1 y1 c img =
     for_loop y0 (y1 + 1) (\<lambda>i. for_loop x0 (x1 + 1) (\<lambda>j im. Paletted_Set im j i c)) img"
  by (simp add: DrawRect_def DrawRect_rows_loop)

lemma DrawRect_painted:
  assumes ok: "img_ok img"
    and mx: "x1 < max_int" "y1 < max_int" "- (2 ^ 63) \<le> x0" "- (2 ^ 63) \<le> y0"
  shows "\<exists>img'. DrawRect x0 y0 x1 y1 c img = Inr img'
    \<and> painted img (\<lambda>X Y. x0 \<le> X \<and> X \<le> x1 \<and> y0 \<le> Y \<and> Y \<le> y1) (Palette_Index c) img'"
proof -
  let ?I = "\<lambda>i. painted img (\<lambda>X Y. x0 \<le> X \<and> X \<le> x1 \<and> y0 \<le> Y \<and> Y < i) (Palette_Index c)"
  have "\<exists>img'. DrawRect x0 y0 x1 y1 c img = Inr img' \<and> ?I (max y0 (y1 + 1)) img'"
    unfolding DrawRect_loops [OF mx]
  proof (rule for_loop_rule [where I = ?I])
    show "?I y0 img" using ok by (auto simp: painted_def)
  next
    fix k t assume "y0 \<le> k" "k < y1 + 1" "?I k t"
    then show "\<exists>t'. for_loop x0 (x1 + 1) (\<lambda>j im. Paletted_Set im j k c) t = Inr t' \<and> ?I (k + 1) t'"
      using DrawRect_row_painted [of img x0 x1 y0 k "Palette_Index c" t c] by simp
  qed
  then obtain img' where i: "DrawRect x0 y0 x1 y1 c img = Inr img'" "?I (max y0 (y1 + 1)) img'"
    by blast
  have "painted img (\<lambda>X Y. x0 \<le> X \<and> X \<le> x1 \<and> y0 \<le> Y \<and> Y \<le> y1) (Palette_Index c) img'"
    using i(2) by (rule painted_cong [rotated]) auto
  with i(1) show ?thesis by blast
qed

lemma div_block:
  fixes s j X :: int
  assumes "0 < s" "j * s \<le> X" "X < (j + 1) * s"
  shows "X div s = j"
proof -
  define r where "r = X - j * s"
  have r: "0 \<le> r" "r < s" using assms by (simp_all add: r_def algebra_simps)
  have "X = r + j * s" by (simp add: r_def)
  then have "X div s = (r + j * s) div s" by simp
  also have "\<dots> = j" using r assms(1) by simp
  finally show ?thesis .
qed

lemma NewPaletted_ok:
  assumes "\<bar>a\<bar> < 2 ^ 63" "\<bar>b\<bar> < 2 ^ 63" "\<bar>a\<bar> * \<bar>b\<bar> < 2 ^ 63"
  shows "\<exists>img. NewPaletted (image_Rect 0 0 a b) = Inr img \<and> img_ok img \<and> Rect img = image_Rect 0 0 a b
     \<and> set (Pix img) \<subseteq> {0}"
proof -
  let ?r = "image_Rect 0 0 a b"
  have d: "Dx ?r = \<bar>a\<bar>" "Dy ?r = \<bar>b\<bar>"
    using assms(1,2) by (auto simp: Dx_def Dy_def image_Rect_def int64_id)
  have m: "MaxX ?r - MinX ?r = \<bar>a\<bar>" "MaxY ?r - MinY ?r = \<bar>b\<bar>"
    by (auto simp: image_Rect_def)
  have n: "NewPaletted ?r = Inr \<lparr>Pix = replicate (nat (\<bar>a\<bar> * \<bar>b\<bar>)) 0, Stride = \<bar>a\<bar>, Rect = ?r\<rparr>"
    using assms(3) by (simp add: NewPaletted_def d)
  have "img_ok \<lparr>Pix = replicate (nat (\<bar>a\<bar> * \<bar>b\<bar>)) 0, Stride = \<bar>a\<bar>, Rect = ?r\<rparr>"
    using assms(3) by (simp add: img_ok_def d m)
  then show ?thesis using n by auto
qed

lemma NewPaletted_huge:
  assumes "\<bar>a\<bar> < 2 ^ 63" "\<bar>b\<bar> < 2 ^ 63" "2 ^ 63 \<le> \<bar>a\<bar> * \<bar>b\<bar>"
  shows "NewPaletted (image_Rect 0 0 a b) = Inl HugeOrNegativeRectangle"
proof -
  let ?r = "image_Rect 0 0 a b"
  have d: "Dx ?r = \<bar>a\<bar>" "Dy ?r = \<bar>b\<bar>"
    using assms(1,2) by (auto simp: Dx_def Dy_def image_Rect_def int64_id)
  show ?thesis using assms(3) by (simp add: NewPaletted_def d)
qed

lemma fits_side:
  assumes wf: "well_formed g" and f: "fits g s"
  shows "\<bar>width g * s\<bar> < 2 ^ 63 - 1" "\<bar>height g * s\<bar> < 2 ^ 63 - 1"
proof -
  have pos: "1 \<le> width g" "1 \<le> height g" using wf by (simp_all add: well_formed_def)
  show "\<bar>width g * s\<bar> < 2 ^ 63 - 1"
  proof (cases "s = 0")
    case True then show ?thesis by simp
  next
    case False
    then have "1 * 1 \<le> \<bar>height g\<bar> * \<bar>s\<bar>" using pos by (intro mult_mono) simp_all
    then have "1 \<le> \<bar>height g * s\<bar>" by (simp add: abs_mult)
    then have "\<bar>width g * s\<bar> * 1 \<le> \<bar>width g * s\<bar> * \<bar>height g * s\<bar>"
      by (intro mult_left_mono) simp_all
    then show ?thesis using f by (simp add: fits_def)
  qed
  show "\<bar>height g * s\<bar> < 2 ^ 63 - 1"
  proof (cases "s = 0")
    case True then show ?thesis by simp
  next
    case False
    then have "1 * 1 \<le> \<bar>width g\<bar> * \<bar>s\<bar>" using pos by (intro mult_mono) simp_all
    then have "1 \<le> \<bar>width g * s\<bar>" by (simp add: abs_mult)
    then have "1 * \<bar>height g * s\<bar> \<le> \<bar>width g * s\<bar> * \<bar>height g * s\<bar>"
      by (intro mult_right_mono) simp_all
    then show ?thesis using f by (simp add: fits_def)
  qed
qed

lemma scaled_bound:
  fixes j w s :: int
  assumes "0 \<le> j" "j \<le> w" "\<bar>w * s\<bar> < 2 ^ 63 - 1"
  shows "- (2 ^ 63) \<le> j * s" "j * s < 2 ^ 63 - 1"
proof -
  have "\<bar>j * s\<bar> = j * \<bar>s\<bar>" using assms(1) by (simp add: abs_mult)
  also have "\<dots> \<le> w * \<bar>s\<bar>" using assms(2) by (intro mult_right_mono) simp_all
  also have "\<dots> = \<bar>w * s\<bar>" using assms(1,2) by (simp add: abs_mult)
  finally have "\<bar>j * s\<bar> < 2 ^ 63 - 1" using assms(3) by simp
  then show "- (2 ^ 63) \<le> j * s" "j * s < 2 ^ 63 - 1" by simp_all
qed

lemma Image_cell_plain:
  assumes wf: "well_formed g" and f: "fits g s"
    and b: "0 \<le> i" "i < height g" "0 \<le> j" "j < width g"
  shows "Image_cell g s i j img =
      DrawRect (j * s) (i * s) (j * s + s) (i * s + s) (if alive g j i then Black else White) img"
    "j * s + s < max_int" "i * s + s < max_int" "- (2 ^ 63) \<le> j * s" "- (2 ^ 63) \<le> i * s"
proof -
  note sd = fits_side [OF wf f]
  show lo: "- (2 ^ 63) \<le> j * s" "- (2 ^ 63) \<le> i * s"
    using scaled_bound(1) [of j "width g" s] scaled_bound(1) [of i "height g" s] b sd by simp_all
  have x0: "int64 (j * s) = j * s" using scaled_bound [of j "width g" s] b sd by (simp add: int64_id)
  have y0: "int64 (i * s) = i * s" using scaled_bound [of i "height g" s] b sd by (simp add: int64_id)
  have x1: "- (2 ^ 63) \<le> j * s + s" "j * s + s < 2 ^ 63 - 1"
    using scaled_bound [of "j + 1" "width g" s] b sd by (simp_all add: algebra_simps)
  have y1: "- (2 ^ 63) \<le> i * s + s" "i * s + s < 2 ^ 63 - 1"
    using scaled_bound [of "i + 1" "height g" s] b sd by (simp_all add: algebra_simps)
  show "j * s + s < max_int" "i * s + s < max_int" using x1 y1 by (simp_all add: max_int_def)
  have "int64 (j * s + s) = j * s + s" "int64 (i * s + s) = i * s + s"
    using x1 y1 by (simp_all add: int64_id)
  then show "Image_cell g s i j img =
      DrawRect (j * s) (i * s) (j * s + s) (i * s + s) (if alive g j i then Black else White) img"
    by (simp add: Image_cell_def At_ok [OF wf] Let_def x0 y0)
qed

lemma Image_gol_plain:
  assumes wf: "well_formed g" and f: "fits g s"
  shows "Image_gol g s =
     rbind (NewPaletted (image_Rect 0 0 (width g * s) (height g * s)))
       (\<lambda>img. for_loop 0 (height g) (\<lambda>i. for_loop 0 (width g) (\<lambda>j. Image_cell g s i j)) img)"
    "\<exists>img. NewPaletted (image_Rect 0 0 (width g * s) (height g * s)) = Inr img \<and> img_ok img
       \<and> Rect img = image_Rect 0 0 (width g * s) (height g * s) \<and> set (Pix img) \<subseteq> {0}"
proof -
  note sd = fits_side [OF wf f]
  have "int64 (width g * s) = width g * s" "int64 (height g * s) = height g * s"
    using sd by (simp_all add: int64_id)
  then show "Image_gol g s =
     rbind (NewPaletted (image_Rect 0 0 (width g * s) (height g * s)))
       (\<lambda>img. for_loop 0 (height g) (\<lambda>i. for_loop 0 (width g) (\<lambda>j. Image_cell g s i j)) img)"
    by (simp add: Image_gol_def)
  show "\<exists>img. NewPaletted (image_Rect 0 0 (width g * s) (height g * s)) = Inr img \<and> img_ok img
       \<and> Rect img = image_Rect 0 0 (width g * s) (height g * s) \<and> set (Pix img) \<subseteq> {0}"
    using sd f by (intro NewPaletted_ok) (simp_all add: fits_def)
qed

lemma rendered_cong:
  assumes "\<And>X Y. Point_In X Y (image_Rect 0 0 (width g * scale) (height g * scale)) \<Longrightarrow> Q X Y \<Longrightarrow> P X Y"
    and "rendered g scale P img"
  shows "rendered g scale Q img"
  using assms unfolding rendered_def by metis

lemma image_Rect_pos:
  "0 \<le> a \<Longrightarrow> 0 \<le> b \<Longrightarrow> image_Rect 0 0 a b = \<lparr>MinX = 0, MinY = 0, MaxX = a, MaxY = b\<rparr>"
  by (simp add: image_Rect_def)

lemma frame_Rect:
  "well_formed g \<Longrightarrow> 0 < s \<Longrightarrow>
   image_Rect 0 0 (width g * s) (height g * s) = \<lparr>MinX = 0, MinY = 0, MaxX = width g * s, MaxY = height g * s\<rparr>"
  by (simp add: image_Rect_pos well_formed_def)

lemma Image_cell_rendered:
  assumes r: "rendered g s (\<lambda>X Y. Y < i * s \<or> (Y < (i + 1) * s \<and> X < j * s)) img"
    and wf: "well_formed g" and s: "0 < s" and f: "fits g s"
    and b: "0 \<le> i" "i < height g" "0 \<le> j" "j < width g"
  shows "\<exists>img'. Image_cell g s i j img = Inr img'
    \<and> rendered g s (\<lambda>X Y. Y < i * s \<or> (Y < (i + 1) * s \<and> X < (j + 1) * s)) img'"
proof -
  from r have ok: "img_ok img" and rect: "Rect img = image_Rect 0 0 (width g * s) (height g * s)"
    unfolding rendered_def by blast+
  from r have px: "\<And>X Y. Point_In X Y (Rect img) \<Longrightarrow> Y < i * s \<or> (Y < (i + 1) * s \<and> X < j * s) \<Longrightarrow>
      pixel img X Y = Palette_Index (if alive g (X div s) (Y div s) then Black else White)"
    unfolding rendered_def by blast
  let ?c = "if alive g j i then Black else White"
  note pl = Image_cell_plain [OF wf f b]
  have "\<exists>img'. DrawRect (j * s) (i * s) (j * s + s) (i * s + s) ?c img = Inr img'
    \<and> painted img (\<lambda>X Y. j * s \<le> X \<and> X \<le> j * s + s \<and> i * s \<le> Y \<and> Y \<le> i * s + s)
      (Palette_Index ?c) img'"
    by (rule DrawRect_painted [OF ok pl(2-5)])
  then obtain img' where
    d: "DrawRect (j * s) (i * s) (j * s + s) (i * s + s) ?c img = Inr img'"
    and p: "painted img (\<lambda>X Y. j * s \<le> X \<and> X \<le> j * s + s \<and> i * s \<le> Y \<and> Y \<le> i * s + s)
      (Palette_Index ?c) img'" by blast
  from p have ok': "img_ok img'" and rect': "Rect img' = Rect img"
    and px': "\<And>X Y. Point_In X Y (Rect img) \<Longrightarrow> pixel img' X Y =
      (if j * s \<le> X \<and> X \<le> j * s + s \<and> i * s \<le> Y \<and> Y \<le> i * s + s then Palette_Index ?c
       else pixel img X Y)"
    by (simp_all add: painted_def)
  have "rendered g s (\<lambda>X Y. Y < i * s \<or> (Y < (i + 1) * s \<and> X < (j + 1) * s)) img'"
    unfolding rendered_def
  proof (intro conjI allI impI)
    show "img_ok img'" by (rule ok')
    show "Rect img' = image_Rect 0 0 (width g * s) (height g * s)" using rect rect' by simp
    fix X Y
    assume pin: "Point_In X Y (Rect img')" and f: "Y < i * s \<or> (Y < (i + 1) * s \<and> X < (j + 1) * s)"
    have pin': "Point_In X Y (Rect img)" using pin rect' by simp
    show "pixel img' X Y = Palette_Index (if alive g (X div s) (Y div s) then Black else White)"
    proof (cases "j * s \<le> X \<and> i * s \<le> Y")
      case True
      then have "X div s = j" "Y div s = i" using f s by (auto intro: div_block)
      moreover have "X \<le> j * s + s" "Y \<le> i * s + s" using f True by (auto simp: algebra_simps)
      ultimately show ?thesis using px' [OF pin'] True by simp
    next
      case False
      then have "pixel img' X Y = pixel img X Y" using px' [OF pin'] by auto
      moreover have "Y < i * s \<or> (Y < (i + 1) * s \<and> X < j * s)" using f False by auto
      ultimately show ?thesis using px [OF pin'] by simp
    qed
  qed
  then show ?thesis using d by (simp add: pl(1))
qed

lemma Image_row_rendered:
  assumes r: "rendered g s (\<lambda>X Y. Y < i * s) img" and wf: "well_formed g" and s: "0 < s"
    and f: "fits g s" and b: "0 \<le> i" "i < height g"
  shows "\<exists>img'. for_loop 0 (width g) (\<lambda>j. Image_cell g s i j) img = Inr img'
    \<and> rendered g s (\<lambda>X Y. Y < (i + 1) * s) img'"
proof -
  let ?I = "\<lambda>j. rendered g s (\<lambda>X Y. Y < i * s \<or> (Y < (i + 1) * s \<and> X < j * s))"
  have "\<exists>img'. for_loop 0 (width g) (\<lambda>j. Image_cell g s i j) img = Inr img' \<and> ?I (max 0 (width g)) img'"
  proof (rule for_loop_rule [where I = ?I])
    show "?I 0 img" using r by (rule rendered_cong [rotated]) (auto simp: Point_In_def frame_Rect [OF wf s])
  next
    fix k t assume "0 \<le> k" "k < width g" "?I k t"
    then show "\<exists>t'. Image_cell g s i k t = Inr t' \<and> ?I (k + 1) t'"
      using Image_cell_rendered [OF _ wf s f b] by simp
  qed
  then obtain img' where i: "for_loop 0 (width g) (\<lambda>j. Image_cell g s i j) img = Inr img'"
    "?I (max 0 (width g)) img'" by blast
  have "0 < width g" using wf by (simp add: well_formed_def)
  then have "rendered g s (\<lambda>X Y. Y < (i + 1) * s) img'"
    using s by (intro rendered_cong [rotated, OF i(2)]) (auto simp: Point_In_def frame_Rect [OF wf s])
  with i(1) show ?thesis by blast
qed

lemma Image_rendered:
  assumes wf: "well_formed g" and s: "0 < s" and f: "fits g s"
  shows "\<exists>img. Image_gol g s = Inr img \<and> rendered g s (\<lambda>X Y. True) img"
proof -
  from Image_gol_plain(2) [OF wf f] obtain img0 where
    n: "NewPaletted (image_Rect 0 0 (width g * s) (height g * s)) = Inr img0" "img_ok img0"
    "Rect img0 = image_Rect 0 0 (width g * s) (height g * s)" by blast
  let ?I = "\<lambda>i. rendered g s (\<lambda>X Y. Y < i * s)"
  have "\<exists>img. for_loop 0 (height g) (\<lambda>i. for_loop 0 (width g) (\<lambda>j. Image_cell g s i j)) img0 = Inr img
    \<and> ?I (max 0 (height g)) img"
  proof (rule for_loop_rule [where I = ?I])
    show "?I 0 img0" using n s by (auto simp: rendered_def Point_In_def frame_Rect [OF wf s])
  next
    fix k t assume "0 \<le> k" "k < height g" "?I k t"
    then show "\<exists>t'. for_loop 0 (width g) (\<lambda>j. Image_cell g s k j) t = Inr t' \<and> ?I (k + 1) t'"
      using Image_row_rendered [OF _ wf s f] by simp
  qed
  then obtain img where i: "for_loop 0 (height g) (\<lambda>i. for_loop 0 (width g) (\<lambda>j. Image_cell g s i j)) img0 = Inr img"
    "?I (max 0 (height g)) img" by blast
  have "0 < height g" using wf by (simp add: well_formed_def)
  then have "rendered g s (\<lambda>X Y. True) img"
    using s by (intro rendered_cong [rotated, OF i(2)]) (auto simp: Point_In_def frame_Rect [OF wf s])
  with i(1) n(1) show ?thesis by (simp add: Image_gol_plain(1) [OF wf f])
qed

lemma DrawRect_outside:
  assumes out: "\<And>X Y. x0 \<le> X \<Longrightarrow> X \<le> x1 \<Longrightarrow> y0 \<le> Y \<Longrightarrow> Y \<le> y1 \<Longrightarrow> \<not> Point_In X Y (Rect img)"
    and mx: "x1 < max_int" "y1 < max_int" "- (2 ^ 63) \<le> x0" "- (2 ^ 63) \<le> y0"
  shows "DrawRect x0 y0 x1 y1 c img = Inr img"
proof -
  have row: "\<exists>t'. for_loop x0 (x1 + 1) (\<lambda>j im. Paletted_Set im j i c) img = Inr t' \<and> t' = img"
    if "y0 \<le> i" "i \<le> y1" for i
  proof (rule for_loop_rule [where I = "\<lambda>j t. t = img"])
    fix k t assume "x0 \<le> k" "k < x1 + 1" "t = img"
    then show "\<exists>t'. Paletted_Set t k i c = Inr t' \<and> t' = img"
      using out [of k i] that by (simp add: Paletted_Set_outside)
  qed simp
  have "\<exists>t'. DrawRect x0 y0 x1 y1 c img = Inr t' \<and> t' = img"
    unfolding DrawRect_loops [OF mx]
  proof (rule for_loop_rule [where I = "\<lambda>i t. t = img"])
    fix k t assume "y0 \<le> k" "k < y1 + 1" "t = img"
    then show "\<exists>t'. for_loop x0 (x1 + 1) (\<lambda>j im. Paletted_Set im j k c) t = Inr t' \<and> t' = img"
      using row [of k] by simp
  qed simp
  then show ?thesis by simp
qed

lemma Image_nonpositive:
  assumes wf: "well_formed g" and s: "s \<le> 0" and f: "fits g s"
  shows "Image_gol g s = NewPaletted (image_Rect 0 0 (width g * s) (height g * s))"
proof -
  from Image_gol_plain(2) [OF wf f] obtain img0 where
    n: "NewPaletted (image_Rect 0 0 (width g * s) (height g * s)) = Inr img0"
    "Rect img0 = image_Rect 0 0 (width g * s) (height g * s)" by blast
  have cell: "Image_cell g s i j img0 = Inr img0"
    if b: "0 \<le> i" "i < height g" "0 \<le> j" "j < width g" for i j
  proof -
    note pl = Image_cell_plain [OF wf f b]
    have "DrawRect (j * s) (i * s) (j * s + s) (i * s + s) c img0 = Inr img0" for c
    proof (rule DrawRect_outside [OF _ pl(2-5)])
      fix X Y assume a: "j * s \<le> X" "X \<le> j * s + s" "i * s \<le> Y" "Y \<le> i * s + s"
      then have "s = 0" using s by simp
      then show "\<not> Point_In X Y (Rect img0)" by (simp add: n(2) Point_In_def image_Rect_def)
    qed
    then show ?thesis by (simp add: pl(1))
  qed
  have row: "\<exists>t'. for_loop 0 (width g) (\<lambda>j. Image_cell g s i j) img0 = Inr t' \<and> t' = img0"
    if "0 \<le> i" "i < height g" for i
    by (rule for_loop_rule [where I = "\<lambda>j t. t = img0"]) (simp_all add: cell that)
  have "\<exists>t'. for_loop 0 (height g) (\<lambda>i. for_loop 0 (width g) (\<lambda>j. Image_cell g s i j)) img0 = Inr t'
      \<and> t' = img0"
    by (rule for_loop_rule [where I = "\<lambda>i t. t = img0"]) (use row in simp_all)
  then show ?thesis by (simp add: Image_gol_plain(1) [OF wf f] n(1))
qed

lemma Image_returns: "well_formed g \<Longrightarrow> fits g s \<Longrightarrow> \<exists>img. Image_gol g s = Inr img"
  using Image_rendered [of g s] Image_nonpositive [of g s] Image_gol_plain(2) [of g s]
  by (cases "0 < s") auto

lemma Image_huge:
  assumes wf: "well_formed g"
    and a: "\<bar>width g * s\<bar> < 2 ^ 63" "\<bar>height g * s\<bar> < 2 ^ 63"
    and h: "2 ^ 63 \<le> \<bar>width g * s\<bar> * \<bar>height g * s\<bar>"
  shows "Image_gol g s = Inl HugeOrNegativeRectangle"
proof -
  have "int64 (width g * s) = width g * s" "int64 (height g * s) = height g * s"
    using a by (simp_all add: int64_id)
  then show ?thesis using NewPaletted_huge [OF a h] by (simp add: Image_gol_def)
qed

text \<open>
  Claim C8, amended. For a well-formed grid and a scale above 0 at which the raster has
  fewer than \<open>2^63 - 1\<close> pixels, \<^verbatim>\<open>Image\<close> returns a raster on the
  rectangle from \<open>(0, 0)\<close> to \<open>(width * scale, height * scale)\<close>, stored row by row from
  the top left, in which the pixel \<open>(X, Y)\<close> has the palette index of black when the cell
  \<open>(X div scale, Y div scale)\<close> is alive and that of white when it is dead. (\<^verbatim>\<open>DrawRect\<close>
  paints \<open>scale + 1\<close> rows and columns per cell; the extra row and column are repainted
  by the cells that follow or fall outside the rectangle.)
\<close>

theorem Image_scaled:
  "well_formed g \<Longrightarrow> 0 < scale \<Longrightarrow> width g * scale * (height g * scale) < 2 ^ 63 - 1 \<Longrightarrow>
   \<exists>img. Image_gol g scale = Inr img
     \<and> Rect img = \<lparr>MinX = 0, MinY = 0, MaxX = width g * scale, MaxY = height g * scale\<rparr>
     \<and> Stride img = width g * scale
     \<and> int (length (Pix img)) = (width g * scale) * (height g * scale)
     \<and> (\<forall>X Y. 0 \<le> X \<and> X < width g * scale \<and> 0 \<le> Y \<and> Y < height g * scale \<longrightarrow>
          ColorIndexAt img X Y =
            Inr (Palette_Index (if alive g (X div scale) (Y div scale) then Black else White))
          \<and> Pix img ! nat (Y * (width g * scale) + X) =
            Palette_Index (if alive g (X div scale) (Y div scale) then Black else White))"
proof -
  assume wf: "well_formed g" and s: "0 < scale"
    and bound: "width g * scale * (height g * scale) < 2 ^ 63 - 1"
  have "0 < width g * scale" "0 < height g * scale" using wf s by (simp_all add: well_formed_def)
  then have f: "fits g scale" using bound by (simp add: fits_def)
  from Image_rendered [OF wf s f] obtain img where
    i: "Image_gol g scale = Inr img" and r: "rendered g scale (\<lambda>X Y. True) img" by blast
  note R = frame_Rect [OF wf s]
  from r have ok: "img_ok img" and rect: "Rect img = image_Rect 0 0 (width g * scale) (height g * scale)"
    unfolding rendered_def by blast+
  from r have px: "\<And>X Y. Point_In X Y (Rect img) \<Longrightarrow>
      pixel img X Y = Palette_Index (if alive g (X div scale) (Y div scale) then Black else White)"
    unfolding rendered_def by blast
  from ok have dx: "Dx (Rect img) = MaxX (Rect img) - MinX (Rect img)"
    and dy: "Dy (Rect img) = MaxY (Rect img) - MinY (Rect img)"
    and sd: "Stride img = Dx (Rect img)"
    and ln: "int (length (Pix img)) = Dx (Rect img) * Dy (Rect img)"
    unfolding img_ok_def by blast+
  have st: "Stride img = width g * scale" unfolding sd dx by (simp add: rect R)
  have len: "int (length (Pix img)) = (width g * scale) * (height g * scale)"
    unfolding ln dx dy by (simp add: rect R)
  have "ColorIndexAt img X Y =
            Inr (Palette_Index (if alive g (X div scale) (Y div scale) then Black else White))
          \<and> Pix img ! nat (Y * (width g * scale) + X) =
            Palette_Index (if alive g (X div scale) (Y div scale) then Black else White)"
    if "0 \<le> X \<and> X < width g * scale \<and> 0 \<le> Y \<and> Y < height g * scale" for X Y
  proof -
    have pin: "Point_In X Y (Rect img)" using that by (simp add: rect R Point_In_def)
    have "pixel img X Y = Pix img ! nat (Y * (width g * scale) + X)"
      using PixOffset_plain(1) [OF ok pin] by (simp add: pixel_def st rect R)
    then show ?thesis using px [OF pin] ColorIndexAt_pixel [OF ok pin] by simp
  qed
  then have all: "\<forall>X Y. 0 \<le> X \<and> X < width g * scale \<and> 0 \<le> Y \<and> Y < height g * scale \<longrightarrow>
          ColorIndexAt img X Y =
            Inr (Palette_Index (if alive g (X div scale) (Y div scale) then Black else White))
          \<and> Pix img ! nat (Y * (width g * scale) + X) =
            Palette_Index (if alive g (X div scale) (Y div scale) then Black else White)"
    by blast
  have r': "Rect img = \<lparr>MinX = 0, MinY = 0, MaxX = width g * scale, MaxY = height g * scale\<rparr>"
    using rect R by simp
  show ?thesis using i r' st len all by (intro exI [of _ img] conjI)
qed

lemma half_grid_wf: "well_formed half_grid"
  by (simp add: half_grid_def grid_of_def well_formed_def dims_ok_def)

lemma half_grid_image:
  "Image_gol half_grid 2 =
     Inr \<lparr>Pix = [1, 1, 0, 0, 1, 1, 0, 0], Stride = 4, Rect = \<lparr>MinX = 0, MinY = 0, MaxX = 4, MaxY = 2\<rparr>\<rparr>"
  by code_simp

theorem Image_scaled_witness:
  "well_formed half_grid \<and> (0 :: int) < 2
   \<and> width half_grid * 2 * (height half_grid * 2) < 2 ^ 63 - 1
   \<and> Image_gol half_grid 2 =
       Inr \<lparr>Pix = [1, 1, 0, 0, 1, 1, 0, 0], Stride = 4, Rect = \<lparr>MinX = 0, MinY = 0, MaxX = 4, MaxY = 2\<rparr>\<rparr>
   \<and> alive half_grid (1 div 2) (1 div 2) \<and> \<not> alive half_grid (2 div 2) (1 div 2)
   \<and> ColorIndexAt \<lparr>Pix = [1, 1, 0, 0, 1, 1, 0, 0], Stride = 4,
        Rect = \<lparr>MinX = 0, MinY = 0, MaxX = 4, MaxY = 2\<rparr>\<rparr> 1 1 = Inr (Palette_Index Black)
   \<and> ColorIndexAt \<lparr>Pix = [1, 1, 0, 0, 1, 1, 0, 0], Stride = 4,
        Rect = \<lparr>MinX = 0, MinY = 0, MaxX = 4, MaxY = 2\<rparr>\<rparr> 2 1 = Inr (Palette_Index White)"
proof -
  have a: "alive half_grid 0 0" "\<not> alive half_grid 1 0"
    by (simp_all add: alive_def in_bounds_def half_grid_def grid_of_def cell_def)
  have w: "width half_grid = 2" "height half_grid = 1" by (simp_all add: half_grid_def grid_of_def)
  have b: "width half_grid * 2 * (height half_grid * 2) < 2 ^ 63 - 1" by (simp add: w)
  from Image_scaled [OF half_grid_wf _ b] obtain img where
    i: "Image_gol half_grid 2 = Inr img"
    and p: "\<And>X Y. 0 \<le> X \<and> X < 4 \<and> 0 \<le> Y \<and> Y < 2 \<Longrightarrow> ColorIndexAt img X Y =
      Inr (Palette_Index (if alive half_grid (X div 2) (Y div 2) then Black else White))"
    by (auto simp: w)
  have e: "img = \<lparr>Pix = [1, 1, 0, 0, 1, 1, 0, 0], Stride = 4, Rect = \<lparr>MinX = 0, MinY = 0, MaxX = 4, MaxY = 2\<rparr>\<rparr>"
    using i half_grid_image by simp
  show ?thesis using p [of 1 1] p [of 2 1] a b half_grid_wf half_grid_image by (simp add: e)
qed

text \<open>
  The claim as stated, for every scale above 0, fails on the grid of one cell at the scale
  \<open>2^32\<close>: the raster would have \<open>2^64\<close> pixels and \<^verbatim>\<open>NewPaletted\<close> panics.
\<close>

theorem Image_huge_counterexample:
  "Image_gol single_grid 4294967296 = Inl HugeOrNegativeRectangle"
proof -
  have wf: "well_formed single_grid"
    by (simp add: single_grid_def grid_of_def well_formed_def dims_ok_def)
  have w: "width single_grid = 1" "height single_grid = 1"
    by (simp_all add: single_grid_def grid_of_def)
  show ?thesis by (rule Image_huge [OF wf]) (simp_all add: w)
qed

text \<open>
  Claim C4, amended. \<^verbatim>\<open>Image\<close> has no error result and checks nothing about the scale.
  When the raster fits (fewer than \<open>2^63 - 1\<close> pixels): for a scale of 0 or below it
  returns the raster that \<^verbatim>\<open>NewPaletted\<close> allocates on the rectangle spanned by
  \<open>(0, 0)\<close> and \<open>(width * scale, height * scale)\<close>, every pixel in the colour of a dead
  cell (no pixel at all for scale 0), and for a scale above 0 it returns a raster as
  well. When the sides fit an \<^verbatim>\<open>int\<close> and the raster has \<open>2^63\<close> pixels or more, of
  whatever sign the scale is, the call panics in \<^verbatim>\<open>NewPaletted\<close>.
\<close>

theorem Image_any_scale:
  "well_formed g \<Longrightarrow>
   (fits g scale \<and> scale \<le> 0 \<longrightarrow>
      Image_gol g scale = NewPaletted (image_Rect 0 0 (width g * scale) (height g * scale))
      \<and> (\<exists>img. Image_gol g scale = Inr img \<and> set (Pix img) \<subseteq> {Palette_Index White}))
   \<and> (fits g scale \<and> 0 < scale \<longrightarrow> (\<exists>img. Image_gol g scale = Inr img))
   \<and> (\<bar>width g * scale\<bar> < 2 ^ 63 \<and> \<bar>height g * scale\<bar> < 2 ^ 63
        \<and> 2 ^ 63 \<le> \<bar>width g * scale\<bar> * \<bar>height g * scale\<bar> \<longrightarrow>
      Image_gol g scale = Inl HugeOrNegativeRectangle)"
proof (intro conjI impI)
  assume wf: "well_formed g" and a: "fits g scale \<and> scale \<le> 0"
  then have n: "Image_gol g scale = NewPaletted (image_Rect 0 0 (width g * scale) (height g * scale))"
    and w: "\<exists>img. Image_gol g scale = Inr img \<and> set (Pix img) \<subseteq> {Palette_Index White}"
    using Image_nonpositive [of g scale] Image_gol_plain(2) [of g scale]
    by (auto simp: Palette_Index_def)
  show "Image_gol g scale = NewPaletted (image_Rect 0 0 (width g * scale) (height g * scale))"
    by (rule n)
  show "\<exists>img. Image_gol g scale = Inr img \<and> set (Pix img) \<subseteq> {Palette_Index White}"
    by (rule w)
next
  assume "well_formed g" "fits g scale \<and> 0 < scale"
  then show "\<exists>img. Image_gol g scale = Inr img" using Image_returns [of g scale] by simp
next
  assume "well_formed g" "\<bar>width g * scale\<bar> < 2 ^ 63 \<and> \<bar>height g * scale\<bar> < 2 ^ 63
        \<and> 2 ^ 63 \<le> \<bar>width g * scale\<bar> * \<bar>height g * scale\<bar>"
  then show "Image_gol g scale = Inl HugeOrNegativeRectangle" using Image_huge [of g scale] by simp
qed

theorem Image_any_scale_witness:
  "well_formed block_grid \<and> fits block_grid (- 1) \<and> fits block_grid 1
   \<and> Image_gol block_grid (- 1) =
       Inr \<lparr>Pix = [0, 0, 0, 0], Stride = 2, Rect = \<lparr>MinX = - 2, MinY = - 2, MaxX = 0, MaxY = 0\<rparr>\<rparr>
   \<and> Image_gol block_grid 1 =
       Inr \<lparr>Pix = [1, 1, 1, 1], Stride = 2, Rect = \<lparr>MinX = 0, MinY = 0, MaxX = 2, MaxY = 2\<rparr>\<rparr>
   \<and> Image_gol block_grid (- 4294967296) = Inl HugeOrNegativeRectangle"
proof -
  have wf: "well_formed block_grid"
    by (simp add: block_grid_def grid_of_def well_formed_def dims_ok_def)
  have f: "fits block_grid (- 1)" "fits block_grid 1"
    by (simp_all add: fits_def block_grid_def grid_of_def)
  have h: "Image_gol block_grid (- 4294967296) = Inl HugeOrNegativeRectangle"
    using Image_any_scale [OF wf, of "- 4294967296"] by (simp add: block_grid_def grid_of_def)
  have 1: "Image_gol block_grid 1 =
       Inr \<lparr>Pix = [1, 1, 1, 1], Stride = 2, Rect = \<lparr>MinX = 0, MinY = 0, MaxX = 2, MaxY = 2\<rparr>\<rparr>"
    by code_simp
  have "Image_gol block_grid (- 1) = NewPaletted (image_Rect 0 0 (width block_grid * - 1) (height block_grid * - 1))"
    using Image_any_scale [OF wf, of "- 1"] f by simp
  also have "\<dots> = Inr \<lparr>Pix = [0, 0, 0, 0], Stride = 2, Rect = \<lparr>MinX = - 2, MinY = - 2, MaxX = 0, MaxY = 0\<rparr>\<rparr>"
    by code_simp
  finally show ?thesis using wf f 1 h by simp
qed

text \<open>
  The claim as stated fails at scale 0 and at scale -1 on the 2 by 2 grid: \<^verbatim>\<open>Image\<close>
  returns a raster and no error. It also fails at the scale \<open>2^32\<close>, above 0, where the
  call panics.
\<close>

theorem Image_zero_scale_counterexample:
  "Image_gol block_grid 0 =
     Inr \<lparr>Pix = [], Stride = 0, Rect = \<lparr>MinX = 0, MinY = 0, MaxX = 0, MaxY = 0\<rparr>\<rparr>
   \<and> Image_gol block_grid (- 1) =
     Inr \<lparr>Pix = [0, 0, 0, 0], Stride = 2, Rect = \<lparr>MinX = - 2, MinY = - 2, MaxX = 0, MaxY = 0\<rparr>\<rparr>
   \<and> Image_gol block_grid 4294967296 = Inl HugeOrNegativeRectangle"
  by code_simp

section \<open>The animation generator\<close>

lemma stable_search_set: "stable_search hs h = (h \<in> set hs)"
  by (induction hs) auto

lemma Image_frame: "well_formed g \<Longrightarrow> fits g scale \<Longrightarrow> Image_gol g scale = Inr (frame g scale)"
  using Image_returns [of g scale] by (auto simp: frame_def)

lemma length_cell_bytes: "well_formed g \<Longrightarrow> int (length (cell_bytes g)) = width g * height g"
  by (simp add: cell_bytes_def well_formed_def)

lemma cell_bytes_nth:
  assumes wf: "well_formed g" and b: "0 \<le> i" "i < height g" "0 \<le> j" "j < width g"
  shows "cell_bytes g ! nat (i * width g + j) = (if alive g j i then 64 else 0)"
proof -
  have w: "0 < width g" using wf by (simp add: well_formed_def)
  have r: "0 \<le> i * width g + j" "i * width g + j < width g * height g"
    using offset_bounds [of i "height g" j "width g"] b by simp_all
  have m: "int (nat (i * width g + j) mod nat (width g)) = j"
    using r(1) w b by (simp add: zmod_int)
  have d: "int (nat (i * width g + j) div nat (width g)) = i"
    using r(1) w b by (simp add: zdiv_int)
  have "nat (i * width g + j) < nat (width g * height g)" using r by simp
  then show ?thesis
    using b by (simp add: cell_bytes_def m d alive_def in_bounds_def)
qed

lemma fill_cell_filled:
  assumes wf: "well_formed g" and b: "0 \<le> i" "i < height g" "0 \<le> j" "j < width g"
    and f: "filled g (i * width g + j) st"
  shows "\<exists>st'. fill_cell g i j st = Inr st' \<and> filled g (i * width g + (j + 1)) st'"
proof -
  let ?n = "i * width g + j"
  let ?v = "if alive g j i then 64 else 0 :: 8 word"
  have r: "0 \<le> ?n" "?n < width g * height g"
    using offset_bounds [of i "height g" j "width g"] b by simp_all
  from f have s: "snd st = ?n" and l: "int (length (fst st)) = width g * height g"
    and t: "take (nat ?n) (fst st) = take (nat ?n) (cell_bytes g)"
    by (simp_all add: filled_def)
  have n1: "nat (i * width g + (j + 1)) = Suc (nat ?n)" using r by (simp add: nat_add_distrib)
  have lt: "nat ?n < length (fst st)" "nat ?n < length (cell_bytes g)"
    using r l length_cell_bytes [OF wf] by simp_all
  have "take (Suc (nat ?n)) ((fst st)[nat ?n := ?v]) = take (nat ?n) (fst st) @ [?v]"
    using lt(1) by (simp add: take_Suc_conv_app_nth)
  also have "\<dots> = take (nat ?n) (cell_bytes g) @ [cell_bytes g ! nat ?n]"
    using t cell_bytes_nth [OF wf b] by simp
  also have "\<dots> = take (Suc (nat ?n)) (cell_bytes g)"
    using lt(2) by (simp add: take_Suc_conv_app_nth)
  finally have "filled g (i * width g + (j + 1)) ((fst st)[nat ?n := ?v], ?n + 1)"
    using l by (simp add: filled_def n1 add.assoc)
  moreover have "fill_cell g i j st = Inr ((fst st)[nat ?n := ?v], ?n + 1)"
    using r l s by (simp add: fill_cell_def At_ok [OF wf] store_def)
  ultimately show ?thesis by simp
qed

lemma fill_row_filled:
  assumes wf: "well_formed g" and b: "0 \<le> i" "i < height g" and f: "filled g (i * width g) st"
  shows "\<exists>st'. for_loop 0 (width g) (\<lambda>j. fill_cell g i j) st = Inr st' \<and> filled g ((i + 1) * width g) st'"
proof -
  have w: "0 < width g" using wf by (simp add: well_formed_def)
  have "\<exists>st'. for_loop 0 (width g) (\<lambda>j. fill_cell g i j) st = Inr st'
      \<and> filled g (i * width g + max 0 (width g)) st'"
  proof (rule for_loop_rule [where I = "\<lambda>j. filled g (i * width g + j)"])
    show "filled g (i * width g + 0) st" using f by simp
  next
    fix k t assume "0 \<le> k" "k < width g" "filled g (i * width g + k) t"
    then show "\<exists>t'. fill_cell g i k t = Inr t' \<and> filled g (i * width g + (k + 1)) t'"
      using fill_cell_filled [OF wf b] by simp
  qed
  then show ?thesis using w by (simp add: algebra_simps)
qed

lemma fill_buffer_ok:
  assumes wf: "well_formed g" and l: "int (length buf) = width g * height g"
  shows "fill_buffer g buf = Inr (cell_bytes g)"
proof -
  have h: "0 < height g" using wf by (simp add: well_formed_def)
  have "\<exists>st'. for_loop 0 (height g) (\<lambda>i. for_loop 0 (width g) (\<lambda>j. fill_cell g i j)) (buf, 0) = Inr st'
      \<and> filled g (max 0 (height g) * width g) st'"
  proof (rule for_loop_rule [where I = "\<lambda>i. filled g (i * width g)"])
    show "filled g (0 * width g) (buf, 0)" using l by (simp add: filled_def)
  next
    fix k t assume "0 \<le> k" "k < height g" "filled g (k * width g) t"
    then show "\<exists>t'. for_loop 0 (width g) (\<lambda>j. fill_cell g k j) t = Inr t' \<and> filled g ((k + 1) * width g) t'"
      using fill_row_filled [OF wf] by simp
  qed
  then obtain st' where s: "for_loop 0 (height g) (\<lambda>i. for_loop 0 (width g) (\<lambda>j. fill_cell g i j)) (buf, 0) = Inr st'"
    and f: "filled g (height g * width g) st'" using h by auto
  have "int (length (fst st')) = height g * width g"
    using f by (simp add: filled_def mult.commute)
  then have "length (fst st') = nat (height g * width g)" by linarith
  moreover have "int (length (cell_bytes g)) = height g * width g"
    using length_cell_bytes [OF wf] by (simp add: mult.commute)
  then have "length (cell_bytes g) = nat (height g * width g)" by linarith
  ultimately have "fst st' = cell_bytes g"
    using f by (simp add: filled_def)
  then show ?thesis using s by (simp add: fill_buffer_def GetWidth_def GetHeight_def)
qed

lemma Generate_body_ok:
  assumes s: "in_sync (game s)"
    and l: "int (length (dataBuffer s)) = width (game s) * height (game s)"
  shows "Generate_body scale maxIterations crcTable s =
     (case Image_gol (game s) scale of
        Inl e \<Rightarrow> Inl e
      | Inr img \<Rightarrow>
          Inr (let s' = s\<lparr>game := Advance (game s), images := images s @ [frame (game s) scale],
                      delays := delays s @ [1], dataBuffer := cell_bytes (Advance (game s))\<rparr>;
              hs = Checksum (cell_bytes (Advance (game s))) crcTable;
              flag = (hs \<in> set (hash_sums s))
          in if flag \<or> int (length (images s)) + 1 = maxIterations then Break s' flag
             else Continue (s'\<lparr>hash_sums := hash_sums s @ [hs]\<rparr>)))"
proof (cases "Image_gol (game s) scale")
  case (Inl e)
  then show ?thesis by (simp add: Generate_body_def)
next
  case (Inr img)
  have wf': "well_formed (Advance (game s))" using in_sync_Advance [OF s] by (simp add: in_sync_def)
  have l': "int (length (dataBuffer s)) = width (Advance (game s)) * height (Advance (game s))"
    using l by (simp add: Advance_def)
  have fr: "frame (game s) scale = img" using Inr by (simp add: frame_def)
  show ?thesis
    by (simp add: Generate_body_def Inr fr Update_ok [OF s] fill_buffer_ok [OF wf' l']
        stable_search_set Let_def)
qed

lemma generation_Suc: "generation g (Suc k) = Advance (generation g k)"
  by (simp add: generation_def)

lemma generation_0: "generation g 0 = g"
  by (simp add: generation_def)

lemma in_sync_generation: "in_sync g \<Longrightarrow> in_sync (generation g k)"
  by (induction k) (simp_all add: generation_0 generation_Suc in_sync_Advance)

lemma dims_generation: "width (generation g k) = width g \<and> height (generation g k) = height g"
  by (induction k) (simp_all add: generation_0 generation_Suc Advance_def)

lemma seen_Suc: "seen g (Suc k) = seen g k @ [fingerprint (generation g (Suc k))]"
  by (simp add: seen_def)

lemma loop_state_0: "loop_state g scale buf0 0 = Generate_init g buf0"
  by (simp add: loop_state_def Generate_init_def generation_0 seen_def)

lemma fits_generation: "fits (generation g k) scale = fits g scale"
  by (simp add: fits_def dims_generation)

text \<open>The scale 4 of \<^verbatim>\<open>GenerateGIF\<close> fits every grid of fewer than \<open>2^59\<close> cells.\<close>

lemma fits_four:
  assumes wf: "well_formed g" and c: "width g * height g < 2 ^ 59"
  shows "fits g 4"
proof -
  have pos: "0 < width g" "0 < height g" using wf by (simp_all add: well_formed_def)
  have "\<bar>width g * 4\<bar> * \<bar>height g * 4\<bar> = 16 * (width g * height g)"
    using pos by (simp add: abs_mult)
  then show ?thesis using c by (simp add: fits_def)
qed

text \<open>
  One iteration from the state after \<open>k\<close> iterations: it panics when \<^verbatim>\<open>Image\<close> does, and
  otherwise breaks or goes on to the state after \<open>k + 1\<close> iterations.
\<close>

lemma Generate_body_any_scale:
  assumes s: "in_sync g" and l: "int (length buf0) = width g * height g"
  shows "Generate_body scale maxIterations (MakeTable ISO) (loop_state g scale buf0 k) =
     (case Image_gol (generation g k) scale of
        Inl e \<Rightarrow> Inl e
      | Inr img \<Rightarrow>
          Inr (if repeats g (Suc k) \<or> int (Suc k) = maxIterations
               then Break (break_state g scale buf0 (Suc k)) (repeats g (Suc k))
               else Continue (loop_state g scale buf0 (Suc k))))"
proof -
  let ?s = "loop_state g scale buf0 k"
  have gs: "in_sync (game ?s)" using in_sync_generation [OF s] by (simp add: loop_state_def)
  have wf: "well_formed (generation g k)" using in_sync_generation [OF s] by (simp add: in_sync_def)
  have ln: "int (length (dataBuffer ?s)) = width (game ?s) * height (game ?s)"
    using l length_cell_bytes [OF wf] by (simp add: loop_state_def dims_generation)
  have fp: "Checksum (cell_bytes (Advance (generation g k))) (MakeTable ISO)
      = fingerprint (generation g (Suc k))"
    by (simp add: fingerprint_def generation_Suc)
  show ?thesis
  proof (cases "Image_gol (generation g k) scale")
    case (Inl e)
    then show ?thesis
      unfolding Generate_body_ok [OF gs ln] by (simp add: loop_state_def)
  next
    case (Inr img)
    then show ?thesis
      unfolding Generate_body_ok [OF gs ln]
      by (simp add: loop_state_def break_state_def Let_def fp repeats_def generation_Suc seen_Suc
          add.commute replicate_append_same)
  qed
qed

lemma Generate_body_loop_state:
  assumes s: "in_sync g" and l: "int (length buf0) = width g * height g" and f: "fits g scale"
  shows "Generate_body scale maxIterations (MakeTable ISO) (loop_state g scale buf0 k) =
     Inr (if repeats g (Suc k) \<or> int (Suc k) = maxIterations
          then Break (break_state g scale buf0 (Suc k)) (repeats g (Suc k))
          else Continue (loop_state g scale buf0 (Suc k)))"
proof -
  have wf: "well_formed (generation g k)" using in_sync_generation [OF s] by (simp add: in_sync_def)
  have "Image_gol (generation g k) scale = Inr (frame (generation g k) scale)"
    using Image_frame [OF wf] f by (simp add: fits_generation)
  then show ?thesis unfolding Generate_body_any_scale [OF s l] by simp
qed

lemma Generate_iter_continues:
  assumes s: "in_sync g" and l: "int (length buf0) = width g * height g" and f: "fits g scale"
    and c: "\<And>m. 1 \<le> m \<Longrightarrow> m \<le> k \<Longrightarrow> \<not> repeats g m \<and> int m \<noteq> maxIterations"
  shows "Generate_iter scale maxIterations (MakeTable ISO) k (Generate_init g buf0)
    = Some (loop_state g scale buf0 k)"
  using c
proof (induction k)
  case 0
  then show ?case by (simp add: loop_state_0)
next
  case (Suc k)
  have "Generate_iter scale maxIterations (MakeTable ISO) k (Generate_init g buf0)
    = Some (loop_state g scale buf0 k)"
    using Suc.prems by (intro Suc.IH) simp
  moreover have "\<not> repeats g (Suc k) \<and> int (Suc k) \<noteq> maxIterations"
    using Suc.prems [of "Suc k"] by simp
  ultimately show ?case
    by (simp add: Generate_body_loop_state [OF s l f])
qed

lemma Generate_iter_state:
  assumes s: "in_sync g" and l: "int (length buf0) = width g * height g"
  shows "Generate_iter scale maxIterations (MakeTable ISO) k (Generate_init g buf0) = Some st
    \<Longrightarrow> st = loop_state g scale buf0 k"
proof (induction k arbitrary: st)
  case 0
  then show ?case by (simp add: loop_state_0)
next
  case (Suc k)
  from Suc.prems obtain s' where
    s': "Generate_iter scale maxIterations (MakeTable ISO) k (Generate_init g buf0) = Some s'"
    and b: "Generate_body scale maxIterations (MakeTable ISO) s' = Inr (Continue st)"
    by (auto split: option.splits sum.splits step.splits)
  have "s' = loop_state g scale buf0 k" using Suc.IH [OF s'] .
  then show ?case using b
    by (simp add: Generate_body_any_scale [OF s l] split: sum.splits if_splits)
qed

lemma Generate_loop_iter:
  "Generate_iter scale maxIterations crcTable k s = Some s' \<Longrightarrow>
   Generate_loop scale maxIterations crcTable s = Generate_loop scale maxIterations crcTable s'"
proof (induction k arbitrary: s')
  case 0
  then show ?case by simp
next
  case (Suc k)
  from Suc.prems obtain t where
    t: "Generate_iter scale maxIterations crcTable k s = Some t"
    and b: "Generate_body scale maxIterations crcTable t = Inr (Continue s')"
    by (auto split: option.splits sum.splits step.splits)
  have "Generate_loop scale maxIterations crcTable s = Generate_loop scale maxIterations crcTable t"
    using Suc.IH [OF t] .
  also have "\<dots> = Generate_loop scale maxIterations crcTable s'"
    by (subst Generate_loop.simps) (simp add: b)
  finally show ?case .
qed

lemma Generate_breaks:
  assumes s: "in_sync g" and f: "fits g scale"
    and c: "\<And>m. 1 \<le> m \<Longrightarrow> m \<le> k \<Longrightarrow> \<not> repeats g m \<and> int m \<noteq> maxIterations"
    and b: "repeats g (Suc k) \<or> int (Suc k) = maxIterations"
  shows "Generate g scale maxIterations =
    Some (Inr (break_state g scale (replicate (nat (width g * height g)) 0) (Suc k), repeats g (Suc k)))"
proof -
  let ?buf = "replicate (nat (width g * height g)) (0 :: 8 word)"
  have pos: "0 < width g" "0 < height g" using s by (simp_all add: in_sync_def well_formed_def)
  then have nn: "0 \<le> width g * height g" by simp
  have l: "int (length ?buf) = width g * height g" using nn by simp
  have "Generate g scale maxIterations =
      Generate_loop scale maxIterations (MakeTable ISO) (Generate_init g ?buf)"
    using nn by (simp add: Generate_def make_slice_def GetWidth_def GetHeight_def)
  also have "\<dots> = Generate_loop scale maxIterations (MakeTable ISO) (loop_state g scale ?buf k)"
    using Generate_loop_iter [OF Generate_iter_continues [OF s l f c]] by simp
  also have "\<dots> = Some (Inr (break_state g scale ?buf (Suc k), repeats g (Suc k)))"
    using b by (subst Generate_loop.simps) (simp add: Generate_body_loop_state [OF s l f])
  finally show ?thesis .
qed

lemma outcome_breaks:
  assumes s: "in_sync g" and f: "fits g scale"
    and c: "\<And>m. 1 \<le> m \<Longrightarrow> m \<le> k \<Longrightarrow> \<not> repeats g m \<and> int m \<noteq> maxIterations"
    and b: "repeats g (Suc k) \<or> int (Suc k) = maxIterations"
  shows "outcome (Generate g scale maxIterations) = Some (Suc k, reason_of (repeats g (Suc k)))"
  by (simp add: Generate_breaks [OF s f c b] outcome_def break_state_def loop_state_def)

lemma neighbours_sum:
  "neighbours g x y =
     of_bool (alive g (x - 1) (y - 1)) + of_bool (alive g x (y - 1)) + of_bool (alive g (x + 1) (y - 1))
     + of_bool (alive g (x - 1) y) + of_bool (alive g (x + 1) y)
     + of_bool (alive g (x - 1) (y + 1)) + of_bool (alive g x (y + 1)) + of_bool (alive g (x + 1) (y + 1))"
  unfolding neighbours_def moore_def length_filter_of_bool by simp

lemma block_rule:
  fixes a b x y :: int
  defines "P \<equiv> \<lambda>x y. (x = a \<or> x = a + 1) \<and> (y = b \<or> y = b + 1)"
  defines "N \<equiv> (of_bool (P (x - 1) (y - 1)) + of_bool (P x (y - 1)) + of_bool (P (x + 1) (y - 1))
     + of_bool (P (x - 1) y) + of_bool (P (x + 1) y)
     + of_bool (P (x - 1) (y + 1)) + of_bool (P x (y + 1)) + of_bool (P (x + 1) (y + 1)) :: int)"
  shows "(if P x y then N = 2 \<or> N = 3 else N = 3) = P x y"
proof -
  consider "x < a - 1" | "x = a - 1" | "x = a" | "x = a + 1" | "x = a + 2" | "a + 2 < x" by linarith
  then show ?thesis
  proof cases
    case 1 then show ?thesis unfolding N_def P_def by simp
  next
    case 2 then show ?thesis unfolding N_def P_def by auto
  next
    case 3 then show ?thesis unfolding N_def P_def by auto
  next
    case 4 then show ?thesis unfolding N_def P_def by auto
  next
    case 5 then show ?thesis unfolding N_def P_def by auto
  next
    case 6 then show ?thesis unfolding N_def P_def by simp
  qed
qed

lemma blinker_rule:
  fixes a b x y :: int
  defines "H \<equiv> \<lambda>x y. y = b \<and> (x = a - 1 \<or> x = a \<or> x = a + 1)"
  defines "N \<equiv> (of_bool (H (x - 1) (y - 1)) + of_bool (H x (y - 1)) + of_bool (H (x + 1) (y - 1))
     + of_bool (H (x - 1) y) + of_bool (H (x + 1) y)
     + of_bool (H (x - 1) (y + 1)) + of_bool (H x (y + 1)) + of_bool (H (x + 1) (y + 1)) :: int)"
  shows "(if H x y then N = 2 \<or> N = 3 else N = 3) = (x = a \<and> (y = b - 1 \<or> y = b \<or> y = b + 1))"
proof -
  consider "y < b - 1" | "y = b - 1" | "y = b" | "y = b + 1" | "b + 1 < y" by linarith
  then show ?thesis
  proof cases
    case 1 then show ?thesis unfolding N_def H_def by simp
  next
    case 2 then show ?thesis unfolding N_def H_def by auto
  next
    case 3 then show ?thesis unfolding N_def H_def by auto
  next
    case 4 then show ?thesis unfolding N_def H_def by auto
  next
    case 5 then show ?thesis unfolding N_def H_def by simp
  qed
qed

lemma upright_rule:
  fixes a b x y :: int
  defines "V \<equiv> \<lambda>x y. x = a \<and> (y = b - 1 \<or> y = b \<or> y = b + 1)"
  defines "N \<equiv> (of_bool (V (x - 1) (y - 1)) + of_bool (V x (y - 1)) + of_bool (V (x + 1) (y - 1))
     + of_bool (V (x - 1) y) + of_bool (V (x + 1) y)
     + of_bool (V (x - 1) (y + 1)) + of_bool (V x (y + 1)) + of_bool (V (x + 1) (y + 1)) :: int)"
  shows "(if V x y then N = 2 \<or> N = 3 else N = 3) = (y = b \<and> (x = a - 1 \<or> x = a \<or> x = a + 1))"
proof -
  consider "x < a - 1" | "x = a - 1" | "x = a" | "x = a + 1" | "a + 1 < x" by linarith
  then show ?thesis
  proof cases
    case 1 then show ?thesis unfolding N_def V_def by simp
  next
    case 2 then show ?thesis unfolding N_def V_def by auto
  next
    case 3 then show ?thesis unfolding N_def V_def by auto
  next
    case 4 then show ?thesis unfolding N_def V_def by auto
  next
    case 5 then show ?thesis unfolding N_def V_def by simp
  qed
qed

lemma alive_rows_of:
  assumes "data g = rows_of (width g) (height g) P" and "\<And>x y. P x y \<Longrightarrow> in_bounds g x y"
  shows "alive g x y = P x y"
  using assms(2) [of x y] by (auto simp: alive_def assms(1) in_bounds_def cell_rows_of)

lemma Advance_rows_of:
  assumes d: "data g = rows_of (width g) (height g) P" and b: "\<And>x y. P x y \<Longrightarrow> in_bounds g x y"
    and r: "\<And>x y N. N = (of_bool (P (x - 1) (y - 1)) + of_bool (P x (y - 1)) + of_bool (P (x + 1) (y - 1))
     + of_bool (P (x - 1) y) + of_bool (P (x + 1) y)
     + of_bool (P (x - 1) (y + 1)) + of_bool (P x (y + 1)) + of_bool (P (x + 1) (y + 1)) :: int)
     \<Longrightarrow> (if P x y then N = 2 \<or> N = 3 else N = 3) = Q x y"
  shows "Advance g = g\<lparr>data := rows_of (width g) (height g) Q, back_buffer := rows_of (width g) (height g) Q\<rparr>"
proof -
  have a: "alive g = P" using alive_rows_of [OF d b] by (intro ext)
  have "next_alive g = Q"
    by (intro ext) (simp add: next_alive_def neighbours_sum a r)
  then show ?thesis by (simp add: Advance_def)
qed

lemma block_still:
  assumes "is_block g a b"
  shows "Advance g = g"
proof -
  let ?P = "\<lambda>x y. (x = a \<or> x = a + 1) \<and> (y = b \<or> y = b + 1)"
  from assms have s: "in_sync g" and d: "data g = rows_of (width g) (height g) ?P"
    and bd: "0 \<le> a" "a + 1 < width g" "0 \<le> b" "b + 1 < height g"
    by (simp_all add: is_block_def)
  have "Advance g = g\<lparr>data := rows_of (width g) (height g) ?P, back_buffer := rows_of (width g) (height g) ?P\<rparr>"
  proof (rule Advance_rows_of [OF d])
    fix x y assume "?P x y" then show "in_bounds g x y" using bd by (auto simp: in_bounds_def)
  next
    fix x y N
    assume "N = (of_bool (?P (x - 1) (y - 1)) + of_bool (?P x (y - 1)) + of_bool (?P (x + 1) (y - 1))
     + of_bool (?P (x - 1) y) + of_bool (?P (x + 1) y)
     + of_bool (?P (x - 1) (y + 1)) + of_bool (?P x (y + 1)) + of_bool (?P (x + 1) (y + 1)) :: int)"
    then show "(if ?P x y then N = 2 \<or> N = 3 else N = 3) = ?P x y"
      using block_rule [of x a y b] by simp
  qed
  also have "\<dots> = g" using s d by (simp add: in_sync_def)
  finally show ?thesis .
qed

lemma blinker_turns:
  assumes "is_blinker g a b"
  shows "Advance g = upright g a b" "Advance (upright g a b) = g"
proof -
  let ?H = "\<lambda>x y. y = b \<and> (x = a - 1 \<or> x = a \<or> x = a + 1)"
  let ?V = "\<lambda>x y. x = a \<and> (y = b - 1 \<or> y = b \<or> y = b + 1)"
  from assms have s: "in_sync g" and d: "data g = rows_of (width g) (height g) ?H"
    and bd: "1 \<le> a" "a + 1 < width g" "1 \<le> b" "b + 1 < height g"
    by (simp_all add: is_blinker_def)
  show "Advance g = upright g a b"
    unfolding upright_def
  proof (rule Advance_rows_of [OF d])
    fix x y assume "?H x y" then show "in_bounds g x y" using bd by (auto simp: in_bounds_def)
  next
    fix x y N
    assume "N = (of_bool (?H (x - 1) (y - 1)) + of_bool (?H x (y - 1)) + of_bool (?H (x + 1) (y - 1))
     + of_bool (?H (x - 1) y) + of_bool (?H (x + 1) y)
     + of_bool (?H (x - 1) (y + 1)) + of_bool (?H x (y + 1)) + of_bool (?H (x + 1) (y + 1)) :: int)"
    then show "(if ?H x y then N = 2 \<or> N = 3 else N = 3) = ?V x y"
      using blinker_rule [of y b x a] by simp
  qed
  have dv: "data (upright g a b) = rows_of (width (upright g a b)) (height (upright g a b)) ?V"
    by (simp add: upright_def)
  have "Advance (upright g a b) = (upright g a b)\<lparr>data := rows_of (width (upright g a b)) (height (upright g a b)) ?H,
      back_buffer := rows_of (width (upright g a b)) (height (upright g a b)) ?H\<rparr>"
  proof (rule Advance_rows_of [OF dv])
    fix x y assume "?V x y" then show "in_bounds (upright g a b) x y"
      using bd by (auto simp: in_bounds_def upright_def)
  next
    fix x y N
    assume "N = (of_bool (?V (x - 1) (y - 1)) + of_bool (?V x (y - 1)) + of_bool (?V (x + 1) (y - 1))
     + of_bool (?V (x - 1) y) + of_bool (?V (x + 1) y)
     + of_bool (?V (x - 1) (y + 1)) + of_bool (?V x (y + 1)) + of_bool (?V (x + 1) (y + 1)) :: int)"
    then show "(if ?V x y then N = 2 \<or> N = 3 else N = 3) = ?H x y"
      using upright_rule [of x a y b] by simp
  qed
  also have "\<dots> = g" using s d by (simp add: in_sync_def upright_def)
  finally show "Advance (upright g a b) = g" .
qed

lemma table_entry: "k < 256 \<Longrightarrow> MakeTable poly ! k = (makeTable_step poly ^^ 8) (word_of_nat k)"
  by (simp add: MakeTable_def)

lemma funpow8: "(f ^^ 8) x = f (f (f (f (f (f (f (f x)))))))"
  by (simp add: eval_nat_numeral)

lemma all_ones: "(- 1 :: 64 word) = 18446744073709551615"
  by simp

lemma Checksum_eval: "Checksum p tab = NOT (crc64_update tab 18446744073709551615 p)"
  unfolding Checksum_def by (subst all_ones [symmetric]) simp

lemmas crc_eval = Checksum_eval table_entry funpow8 makeTable_step_def ISO_def

text \<open>The model of the checksum gives the check value of CRC-64 with the ISO polynomial.\<close>

lemma Checksum_check_value:
  "Checksum [49, 50, 51, 52, 53, 54, 55, 56, 57] (MakeTable ISO) = 0xB90956C775A41001"
  by (simp add: crc_eval)

lemma block_grid_in_sync: "in_sync block_grid"
  by (simp add: block_grid_def grid_of_def in_sync_def well_formed_def dims_ok_def)

lemma block_grid_is_block: "is_block block_grid 0 0"
  unfolding is_block_def using block_grid_in_sync by (simp add: block_grid_def grid_of_def) code_simp

lemma block_grid_fits: "fits block_grid 1" "fits block_grid 4"
  by (simp_all add: fits_def block_grid_def grid_of_def)

lemma blinker_grid_in_sync: "in_sync blinker_grid"
  by (simp add: blinker_grid_def grid_of_def in_sync_def well_formed_def dims_ok_def)

lemma blinker_grid_is_blinker: "is_blinker blinker_grid 1 1"
  unfolding is_blinker_def using blinker_grid_in_sync by (simp add: blinker_grid_def grid_of_def) code_simp

lemma blinker_grid_fits: "fits blinker_grid 1" "fits blinker_grid 4"
  by (simp_all add: fits_def blinker_grid_def grid_of_def)

lemma blinker_fingerprints:
  "fingerprint blinker_grid = 18423381184967081983" "fingerprint (Advance blinker_grid) = 18429011148364840851"
proof -
  have a: "cell_bytes blinker_grid = [0, 0, 0, 64, 64, 64, 0, 0, 0]" by code_simp
  have b: "cell_bytes (Advance blinker_grid) = [0, 64, 0, 0, 64, 0, 0, 64, 0]" by code_simp
  show "fingerprint blinker_grid = 18423381184967081983"
    unfolding fingerprint_def a by (simp add: crc_eval)
  show "fingerprint (Advance blinker_grid) = 18429011148364840851"
    unfolding fingerprint_def b by (simp add: crc_eval)
qed

lemma collision_in_sync: "in_sync collision_grid0"
  by (simp add: collision_grid0_def grid_of_def in_sync_def well_formed_def dims_ok_def)

lemma collision_fits: "fits collision_grid0 4"
  by (simp add: fits_def collision_grid0_def grid_of_def)

lemma collision_step1: "Advance collision_grid0 = collision_grid1"
  by code_simp

lemma collision_step2: "Advance collision_grid1 = collision_grid2"
  by code_simp

lemma collision_step3: "Advance collision_grid2 = collision_grid3"
  by code_simp

lemma collision_generations:
  "generation collision_grid0 0 = collision_grid0"
  "generation collision_grid0 (Suc 0) = collision_grid1"
  "generation collision_grid0 (Suc (Suc 0)) = collision_grid2"
  "generation collision_grid0 (Suc (Suc (Suc 0))) = collision_grid3"
  by (simp_all add: generation_def collision_step1 collision_step2 collision_step3)

lemma collision_fingerprints:
  "fingerprint (collision_grid1) = 18423312379590971395" "fingerprint (collision_grid2) = 18423312379590971395"
proof -
  have a: "cell_bytes (collision_grid1) =
     [0, 64, 64, 64, 64, 0, 0, 0, 0, 0, 0, 0, 0, 0, 0, 0, 0, 0, 0, 0, 0, 0, 0, 0,
      0, 0, 0, 0, 0, 0, 0, 0, 0, 0, 0, 0, 0, 0, 0, 0, 0, 0, 0, 0, 0, 0, 0, 0,
      0, 0, 0, 0, 0, 0, 0, 0, 0, 0, 0, 0, 0, 64, 64, 0, 0, 0, 0, 64, 64, 0]" by code_simp
  have b: "cell_bytes (collision_grid2) =
     [0, 0, 64, 64, 0, 0, 0, 0, 0, 0, 0, 0, 0, 0, 0, 0, 0, 0, 0, 0, 0, 0, 0, 0,
      0, 0, 0, 0, 0, 0, 0, 0, 0, 0, 0, 0, 0, 0, 0, 0, 0, 0, 0, 0, 0, 0, 0, 0,
      0, 0, 0, 0, 0, 0, 0, 0, 0, 0, 0, 0, 0, 0, 0, 0, 0, 0, 0, 0, 0, 0]" by code_simp
  show "fingerprint (collision_grid1) = 18423312379590971395"
    unfolding fingerprint_def a by (simp add: crc_eval)
  show "fingerprint (collision_grid2) = 18423312379590971395"
    unfolding fingerprint_def b by (simp add: crc_eval)
qed

lemma seen_0: "seen g 0 = []"
  by (simp add: seen_def)

lemma seen_1: "seen g (Suc 0) = [fingerprint (generation g (Suc 0))]"
  by (simp add: seen_def)

lemma set_seen: "set (seen g k) = (\<lambda>m. fingerprint (generation g m)) ` {1..k}"
  by (auto simp: seen_def)

lemma distinct_no_repeat:
  assumes d: "distinct (seen g n)" and m: "1 \<le> m" "m \<le> n"
  shows "\<not> repeats g m"
proof
  assume "repeats g m"
  then obtain a where a: "1 \<le> a" "a \<le> m - 1" "fingerprint (generation g a) = fingerprint (generation g m)"
    by (auto simp: repeats_def set_seen)
  have "inj_on (\<lambda>m. fingerprint (generation g m)) (set [1..<Suc n])"
    using d by (simp add: seen_def distinct_map)
  moreover have "a \<in> set [1..<Suc n]" "m \<in> set [1..<Suc n]" using a m by auto
  ultimately have "a = m" using a(3) by (auto dest: inj_onD)
  then show False using a m by simp
qed

section \<open>Claims about the animation generator\<close>

text \<open>
  Claim C10. Within one run of the loop of \<^verbatim>\<open>GenerateGIF\<close> on a grid whose buffers agree,
  the state at the head of the loop after \<open>k\<close> iterations has the grid at generation
  \<open>k\<close>, \<open>k\<close> frames, and in \<open>hash_sums\<close> exactly the fingerprints of the generations
  1 to \<open>k\<close>, in this order: the fingerprint of generation 0 is not among the entries. When
  the next iteration breaks with \<^verbatim>\<open>stable\<close> set, the fingerprint of the new generation
  \<open>k + 1\<close> is that of a generation \<open>a\<close> with \<open>1 \<le> a \<le> k\<close>.
\<close>

theorem seen_fingerprints:
  "in_sync g \<Longrightarrow> int (length buf0) = width g * height g \<Longrightarrow>
   Generate_iter scale maxIterations (MakeTable ISO) k (Generate_init g buf0) = Some st \<Longrightarrow>
   game st = generation g k \<and> length (images st) = k
   \<and> hash_sums st = map (\<lambda>m. fingerprint (generation g m)) [1..<Suc k]
   \<and> (\<forall>st'. Generate_body scale maxIterations (MakeTable ISO) st = Inr (Break st' True) \<longrightarrow>
         (\<exists>a. 1 \<le> a \<and> a \<le> k \<and> fingerprint (generation g a) = fingerprint (generation g (Suc k))))"
proof -
  assume s: "in_sync g" and l: "int (length buf0) = width g * height g"
    and i: "Generate_iter scale maxIterations (MakeTable ISO) k (Generate_init g buf0) = Some st"
  have st: "st = loop_state g scale buf0 k" using Generate_iter_state [OF s l i] .
  have "\<exists>a. 1 \<le> a \<and> a \<le> k \<and> fingerprint (generation g a) = fingerprint (generation g (Suc k))"
    if "Generate_body scale maxIterations (MakeTable ISO) st = Inr (Break st' True)" for st'
  proof -
    have "repeats g (Suc k)"
      using that unfolding st Generate_body_any_scale [OF s l]
      by (simp split: sum.splits if_splits)
    then show ?thesis by (auto simp: repeats_def set_seen)
  qed
  then show ?thesis by (simp add: st loop_state_def seen_def)
qed

theorem seen_fingerprints_witness:
  "in_sync block_grid \<and> int (length [0 :: 8 word, 0, 0, 0]) = width block_grid * height block_grid
   \<and> Generate_iter 4 2048 (MakeTable ISO) 1 (Generate_init block_grid [0, 0, 0, 0])
       = Some (loop_state block_grid 4 [0, 0, 0, 0] 1)
   \<and> hash_sums (loop_state block_grid 4 [0, 0, 0, 0] 1) = [fingerprint (generation block_grid 1)]
   \<and> Generate_body 4 2048 (MakeTable ISO) (loop_state block_grid 4 [0, 0, 0, 0] 1)
       = Inr (Break (break_state block_grid 4 [0, 0, 0, 0] 2) True)
   \<and> fingerprint (generation block_grid 1) = fingerprint (generation block_grid 2)"
proof -
  note s = block_grid_in_sync
  have l: "int (length [0 :: 8 word, 0, 0, 0]) = width block_grid * height block_grid"
    by (simp add: block_grid_def grid_of_def)
  have g: "generation block_grid k = block_grid" for k
    by (induction k) (simp_all add: generation_0 generation_Suc block_still [OF block_grid_is_block])
  have i: "Generate_iter 4 2048 (MakeTable ISO) 1 (Generate_init block_grid [0, 0, 0, 0])
       = Some (loop_state block_grid 4 [0, 0, 0, 0] 1)"
    using Generate_iter_continues [OF s l block_grid_fits(2), of 1 2048]
    by (simp add: repeats_def seen_0)
  have r: "repeats block_grid (Suc (Suc 0))" by (simp add: repeats_def seen_1 g)
  have b: "Generate_body 4 2048 (MakeTable ISO) (loop_state block_grid 4 [0, 0, 0, 0] 1)
       = Inr (Break (break_state block_grid 4 [0, 0, 0, 0] 2) True)"
    using r by (simp add: Generate_body_loop_state [OF s l block_grid_fits(2)] eval_nat_numeral)
  from seen_fingerprints [OF s l i]
  have "hash_sums (loop_state block_grid 4 [0, 0, 0, 0] 1) = [fingerprint (generation block_grid 1)]"
    by simp
  then show ?thesis using s l i b by (simp add: g)
qed

text \<open>
  Claim C5, amended. For a grid whose buffers agree, a scale at which its raster fits and
  \<open>N \<ge> 1\<close>, when the fingerprints of the generations 1 to \<open>N\<close> are pairwise distinct,
  \<^verbatim>\<open>Generate\<close> with \<open>maxIterations = N\<close> returns with the reason
  \<open>IterationLimitReached\<close> and exactly \<open>N\<close> frames, those of the generations 0 to
  \<open>N - 1\<close>. The scale 4 of \<^verbatim>\<open>GenerateGIF\<close> fits every grid of fewer than \<open>2^59\<close>
  cells.
\<close>

theorem iteration_limit:
  "in_sync g \<Longrightarrow> fits g scale \<Longrightarrow> 1 \<le> N \<Longrightarrow>
   distinct (map (\<lambda>m. fingerprint (generation g m)) [1..<Suc N]) \<Longrightarrow>
   outcome (Generate g scale (int N)) = Some (N, IterationLimitReached)
   \<and> frames (Generate g scale (int N)) = map (\<lambda>m. frame (generation g m) scale) [0..<N]"
proof -
  assume s: "in_sync g" and f: "fits g scale" and n: "1 \<le> N"
    and d: "distinct (map (\<lambda>m. fingerprint (generation g m)) [1..<Suc N])"
  from n obtain k where k: "N = Suc k" by (cases N) auto
  have d': "distinct (seen g N)" using d by (simp add: seen_def)
  have c: "\<not> repeats g m \<and> int m \<noteq> int N" if "1 \<le> m" "m \<le> k" for m
    using distinct_no_repeat [OF d', of m] that k by simp
  have nr: "\<not> repeats g (Suc k)" using distinct_no_repeat [OF d', of N] k by simp
  have b: "repeats g (Suc k) \<or> int (Suc k) = int N" using k by simp
  show ?thesis
    using Generate_breaks [OF s f c b] nr
    by (simp add: k outcome_def frames_def break_state_def loop_state_def reason_of_def)
qed

theorem iteration_limit_witness:
  "in_sync blinker_grid \<and> fits blinker_grid 4 \<and> (1 :: nat) \<le> 2
   \<and> distinct (map (\<lambda>m. fingerprint (generation blinker_grid m)) [1..<Suc 2])
   \<and> outcome (Generate blinker_grid 4 2) = Some (2, IterationLimitReached)"
proof -
  have g: "generation blinker_grid (Suc 0) = Advance blinker_grid"
    "generation blinker_grid (Suc (Suc 0)) = blinker_grid"
    using blinker_turns [OF blinker_grid_is_blinker]
    by (simp_all add: generation_def)
  have u: "[1..<Suc 2] = [Suc 0, Suc (Suc 0)]" by (simp add: numeral_2_eq_2)
  have d: "distinct (map (\<lambda>m. fingerprint (generation blinker_grid m)) [1..<Suc 2])"
    unfolding u using g blinker_fingerprints by simp
  show ?thesis
    using iteration_limit [OF blinker_grid_in_sync blinker_grid_fits(2) _ d] d
      blinker_grid_in_sync blinker_grid_fits(2)
    by simp
qed

text \<open>
  The claim as stated speaks of states that do not repeat. On the grid of one row
  \<open>collision_grid0\<close> the generations 0, 1, 2 and 3 are four different states, but the
  generations 1 and 2 differ in six cells whose bytes the CRC-64 does not tell apart:
  they have the same fingerprint. With \<open>maxIterations = 3\<close> the loop stops after two
  frames with \<^verbatim>\<open>stable\<close> set.
\<close>

theorem collision_counterexample:
  "distinct [data (generation collision_grid0 0), data (generation collision_grid0 1),
             data (generation collision_grid0 2), data (generation collision_grid0 3)]
   \<and> fingerprint (generation collision_grid0 1) = fingerprint (generation collision_grid0 2)
   \<and> outcome (Generate collision_grid0 4 3) = Some (2, StableCycleDetected)"
proof -
  have d: "distinct [data (generation collision_grid0 0), data (generation collision_grid0 1),
             data (generation collision_grid0 2), data (generation collision_grid0 3)]"
    unfolding One_nat_def numeral_2_eq_2 numeral_3_eq_3 collision_generations by code_simp
  have f: "fingerprint (generation collision_grid0 1) = fingerprint (generation collision_grid0 2)"
    unfolding One_nat_def numeral_2_eq_2 collision_generations by (simp add: collision_fingerprints)
  have r: "repeats collision_grid0 (Suc (Suc 0))"
    using f by (simp add: repeats_def seen_1 numeral_2_eq_2)
  have c: "\<not> repeats collision_grid0 m \<and> int m \<noteq> 3" if "1 \<le> m" "m \<le> Suc 0" for m
    using that by (cases "m = 1") (simp_all add: repeats_def seen_0)
  have "outcome (Generate collision_grid0 4 3) = Some (Suc (Suc 0), reason_of (repeats collision_grid0 (Suc (Suc 0))))"
    by (rule outcome_breaks [OF collision_in_sync collision_fits c]) (use r in simp_all)
  then show ?thesis using d f r by (simp add: reason_of_def)
qed

lemma still_life_outcome:
  assumes s: "in_sync g" and f: "fits g scale" and a: "Advance g = g" and m: "maxIterations \<noteq> 1"
  shows "outcome (Generate g scale maxIterations) = Some (2, StableCycleDetected)"
    "frames (Generate g scale maxIterations) = [frame g scale, frame g scale]"
proof -
  have g: "generation g k = g" for k
    by (induction k) (simp_all add: generation_0 generation_Suc a)
  have c: "\<not> repeats g n \<and> int n \<noteq> maxIterations" if "1 \<le> n" "n \<le> Suc 0" for n
    using that m by (cases "n = 1") (simp_all add: repeats_def seen_0)
  have r: "repeats g (Suc (Suc 0))" by (simp add: repeats_def seen_1 g)
  then have b: "repeats g (Suc (Suc 0)) \<or> int (Suc (Suc 0)) = maxIterations" by simp
  show "outcome (Generate g scale maxIterations) = Some (2, StableCycleDetected)"
    using outcome_breaks [OF s f c b] r by (simp add: reason_of_def)
  show "frames (Generate g scale maxIterations) = [frame g scale, frame g scale]"
    using Generate_breaks [OF s f c b]
    by (simp add: frames_def break_state_def loop_state_def g)
qed

lemma period_two_outcome:
  assumes s: "in_sync g" and f: "fits g scale" and a: "Advance (Advance g) = g"
    and d: "fingerprint (Advance g) \<noteq> fingerprint g" and m: "3 \<le> maxIterations"
  shows "outcome (Generate g scale maxIterations) = Some (3, StableCycleDetected)"
    "frames (Generate g scale maxIterations) = [frame g scale, frame (Advance g) scale, frame g scale]"
proof -
  have g: "generation g (Suc 0) = Advance g" "generation g (Suc (Suc 0)) = g"
    "generation g (Suc (Suc (Suc 0))) = Advance g"
    by (simp_all add: generation_def a)
  have s2: "seen g (Suc (Suc 0)) = [fingerprint (Advance g), fingerprint g]"
    by (simp add: seen_Suc seen_0 g)
  have c: "\<not> repeats g n \<and> int n \<noteq> maxIterations" if "1 \<le> n" "n \<le> Suc (Suc 0)" for n
  proof -
    from that consider "n = Suc 0" | "n = Suc (Suc 0)" by linarith
    then show ?thesis
      using m d by cases (auto simp: repeats_def seen_0 seen_1 g)
  qed
  have r: "repeats g (Suc (Suc (Suc 0)))" by (simp add: repeats_def s2 g)
  then have b: "repeats g (Suc (Suc (Suc 0))) \<or> int (Suc (Suc (Suc 0))) = maxIterations" by simp
  show "outcome (Generate g scale maxIterations) = Some (3, StableCycleDetected)"
    using outcome_breaks [OF s f c b] r by (simp add: reason_of_def)
  show "frames (Generate g scale maxIterations) = [frame g scale, frame (Advance g) scale, frame g scale]"
    using Generate_breaks [OF s f c b]
    by (simp add: frames_def break_state_def loop_state_def g generation_0 upt_rec [of 0]
        upt_rec [of "Suc 0"] upt_rec [of "Suc (Suc 0)"])
qed

text \<open>
  Claim C2, amended. For every grid that holds a 2 by 2 block, every scale at which its
  raster fits (the scale 4 of \<^verbatim>\<open>GenerateGIF\<close> on every grid of fewer than \<open>2^59\<close>
  cells) and every \<open>maxIterations \<ge> 2\<close>, \<^verbatim>\<open>Generate\<close> returns with
  \<open>StableCycleDetected\<close> and exactly two frames, both the rendering of the block: the
  frames of generation 0 and of generation 1, which equals it. The fingerprint of generation 0 is never recorded, so the repeat
  is found only when generation 2 is computed, and the output holds the frame of the
  same state twice.
\<close>

theorem block_two_frames:
  "is_block g a b \<Longrightarrow> fits g scale \<Longrightarrow> 2 \<le> maxIterations \<Longrightarrow>
   Update g = Inr g
   \<and> outcome (Generate g scale maxIterations) = Some (2, StableCycleDetected)
   \<and> frames (Generate g scale maxIterations) = [frame g scale, frame g scale]
   \<and> Image_gol g scale = Inr (frame g scale)"
proof -
  assume b: "is_block g a b" and f: "fits g scale" and m: "2 \<le> maxIterations"
  have s: "in_sync g" using b by (simp add: is_block_def)
  then have wf: "well_formed g" by (simp add: in_sync_def)
  note a = block_still [OF b]
  have m1: "maxIterations \<noteq> 1" using m by simp
  show ?thesis
    using still_life_outcome [OF s f a m1] Update_ok [OF s] a Image_frame [OF wf f]
    by simp
qed

theorem block_two_frames_witness:
  "is_block block_grid 0 0 \<and> fits block_grid 4 \<and> (2 :: int) \<le> 2048
   \<and> outcome (GenerateGIF block_grid) = Some (2, StableCycleDetected)
   \<and> frames (GenerateGIF block_grid) = [frame block_grid 4, frame block_grid 4]"
  using block_two_frames [OF block_grid_is_block block_grid_fits(2), of 2048]
    block_grid_is_block block_grid_fits(2)
  by (simp add: GenerateGIF_def MaxIterations_def)

text \<open>
  The claim as stated fails on the 2 by 2 grid of four alive cells with scale 1 and
  \<open>maxIterations = 2\<close>: two frames, and the second is the first again.
\<close>

theorem block_counterexample:
  "outcome (Generate block_grid 1 2) = Some (2, StableCycleDetected)
   \<and> frames (Generate block_grid 1 2) = [frame block_grid 1, frame block_grid 1]"
  using still_life_outcome [OF block_grid_in_sync block_grid_fits(1)
      block_still [OF block_grid_is_block], of 2]
  by simp

text \<open>
  A limit below 1 is never reached, since the first comparison sees one frame: the loop
  then ends only on a repeated fingerprint. A statement about reaching the limit
  therefore needs a limit of at least 1.
\<close>

lemma zero_limit_example:
  "outcome (Generate block_grid 4 0) = Some (2, StableCycleDetected)"
  using still_life_outcome(1) [OF block_grid_in_sync block_grid_fits(2)
      block_still [OF block_grid_is_block], of 0]
  by simp

text \<open>
  At a scale at which the raster does not fit, the first call of \<^verbatim>\<open>Image\<close> panics in
  \<^verbatim>\<open>NewPaletted\<close>, and \<^verbatim>\<open>Generate\<close> with it: a statement about what \<^verbatim>\<open>Generate\<close>
  returns therefore needs a scale at which the raster fits.
\<close>

lemma huge_scale_example:
  "Generate block_grid 4294967296 2048 = Some (Inl HugeOrNegativeRectangle)"
proof -
  let ?buf = "replicate (nat (width block_grid * height block_grid)) (0 :: 8 word)"
  have wf: "well_formed block_grid" using block_grid_in_sync by (simp add: in_sync_def)
  have w: "width block_grid = 2" "height block_grid = 2"
    by (simp_all add: block_grid_def grid_of_def)
  have i: "Image_gol block_grid 4294967296 = Inl HugeOrNegativeRectangle"
    by (rule Image_huge [OF wf]) (simp_all add: w)
  have b: "Generate_body 4294967296 2048 (MakeTable ISO) (Generate_init block_grid ?buf)
      = Inl HugeOrNegativeRectangle"
    by (simp add: Generate_body_def Generate_init_def i)
  have "Generate block_grid 4294967296 2048 =
      Generate_loop 4294967296 2048 (MakeTable ISO) (Generate_init block_grid ?buf)"
    by (simp add: Generate_def make_slice_def GetWidth_def GetHeight_def w)
  also have "\<dots> = Some (Inl HugeOrNegativeRectangle)"
    by (subst Generate_loop.simps) (simp add: b)
  finally show ?thesis .
qed

text \<open>
  Claim C3, amended. For every grid that holds a horizontal blinker whose two phases have
  different fingerprints, every scale at which its raster fits (the scale 4 of
  \<^verbatim>\<open>GenerateGIF\<close> on every grid of fewer than \<open>2^59\<close> cells) and every
  \<open>maxIterations \<ge> 4\<close>, \<^verbatim>\<open>Generate\<close> returns with \<open>StableCycleDetected\<close> and exactly
  three frames: the horizontal phase, the upright phase and the horizontal phase again.
\<close>

theorem blinker_three_frames:
  "is_blinker g a b \<Longrightarrow> fits g scale \<Longrightarrow> fingerprint (Advance g) \<noteq> fingerprint g \<Longrightarrow>
   4 \<le> maxIterations \<Longrightarrow>
   Update g = Inr (upright g a b) \<and> Update (upright g a b) = Inr g
   \<and> outcome (Generate g scale maxIterations) = Some (3, StableCycleDetected)
   \<and> frames (Generate g scale maxIterations) = [frame g scale, frame (upright g a b) scale, frame g scale]"
proof -
  assume b: "is_blinker g a b" and f: "fits g scale"
    and d: "fingerprint (Advance g) \<noteq> fingerprint g" and m: "4 \<le> maxIterations"
  have s: "in_sync g" using b by (simp add: is_blinker_def)
  note t = blinker_turns [OF b]
  have s': "in_sync (upright g a b)" using in_sync_Advance [OF s] t(1) by simp
  have a: "Advance (Advance g) = g" using t by simp
  have m3: "3 \<le> maxIterations" using m by simp
  show ?thesis
    using period_two_outcome [OF s f a d m3] Update_ok [OF s] Update_ok [OF s'] t
    by simp
qed

theorem blinker_three_frames_witness:
  "is_blinker blinker_grid 1 1 \<and> fits blinker_grid 4
   \<and> fingerprint (Advance blinker_grid) \<noteq> fingerprint blinker_grid
   \<and> (4 :: int) \<le> 2048
   \<and> outcome (GenerateGIF blinker_grid) = Some (3, StableCycleDetected)"
proof -
  have f: "fingerprint (Advance blinker_grid) \<noteq> fingerprint blinker_grid"
    by (simp add: blinker_fingerprints)
  show ?thesis
    using blinker_three_frames [OF blinker_grid_is_blinker blinker_grid_fits(2) f, of 2048]
      blinker_grid_is_blinker blinker_grid_fits(2) f
    by (simp add: GenerateGIF_def MaxIterations_def)
qed

text \<open>
  The claim as stated fails on the 3 by 3 grid with the blinker in its middle row, scale 1
  and \<open>maxIterations = 4\<close>: three frames, not two.
\<close>

theorem blinker_counterexample:
  "outcome (Generate blinker_grid 1 4) = Some (3, StableCycleDetected)"
proof -
  have f: "fingerprint (Advance blinker_grid) \<noteq> fingerprint blinker_grid"
    by (simp add: blinker_fingerprints)
  have a: "Advance (Advance blinker_grid) = blinker_grid"
    using blinker_turns [OF blinker_grid_is_blinker] by simp
  show ?thesis
    using period_two_outcome(1) [OF blinker_grid_in_sync blinker_grid_fits(1) a f, of 4] by simp
qed

end
